theory Spec2Isabelle
  imports Main "HOL-Library.Word"
begin

unbundle bit_operations_syntax

section \<open>Data model\<close>

text \<open>
  The printer class of \<^verbatim>\<open>tm88iv.py\<close> sends byte strings to the device and keeps two
  ordered dictionaries of user-definable character slots. Python \<^verbatim>\<open>bytes\<close> are lists
  of 8-bit words, a Python \<^verbatim>\<open>str\<close> is the list of its Unicode code points (so the
  empty string that marks a free slot is \<open>[]\<close> and a character \<open>c\<close> is \<open>[c]\<close>),
  and Python's unbounded integers are \<open>int\<close> or \<open>nat\<close>.
\<close>

type_synonym byte = "8 word"
type_synonym bytes = "byte list"
type_synonym ustr = "nat list"

datatype error = TypeError | OverflowError | KeyError

text \<open>
  The byte constants of \<^verbatim>\<open>escpos.constants\<close> (python-escpos, imported with
  \<^verbatim>\<open>from escpos.constants import *\<close>) and ASCII byte literals such as \<^verbatim>\<open>b'&'\<close>.
\<close>

definition ESC :: bytes where "ESC = [0x1b]"
definition FS :: bytes where "FS = [0x1c]"
definition GS :: bytes where "GS = [0x1d]"

definition ascii :: "string \<Rightarrow> bytes" where
  "ascii s = map (\<lambda>c. of_nat (of_char c)) s"

subsection \<open>Bitmaps and the bit packer\<close>

text \<open>
  A PIL image after \<^verbatim>\<open>convert('1')\<close>: its size and the pixel value at \<open>(x, y)\<close>
  (255 is white, every other value is read as black by the packer).
\<close>

record image =
  width :: nat
  height :: nat
  getpixel :: "nat \<Rightarrow> nat \<Rightarrow> nat"

text \<open>\<^verbatim>\<open>int(bit_str, 2)\<close> on a string of the digits 0 and 1.\<close>

definition int2 :: "string \<Rightarrow> nat" where
  "int2 s = foldl (\<lambda>acc c. 2 * acc + (if c = CHR ''1'' then 1 else 0)) 0 s"

text \<open>\<^verbatim>\<open>n.to_bytes(1, 'big')\<close>: raises OverflowError when \<open>n\<close> does not fit one byte.\<close>

definition to_bytes1 :: "nat \<Rightarrow> error + byte" where
  "to_bytes1 n = (if n < 256 then Inr (of_nat n) else Inl OverflowError)"

text \<open>
  The body of the inner loop of \<^verbatim>\<open>_escpos_register_gaiji\<close> at pixel \<open>(x, y)\<close>; the
  loop state is \<^verbatim>\<open>(byte_array, bit_str)\<close>. The bit string is not reset between
  columns, it is reset only when a byte is emitted.
\<close>

definition pack_pixel :: "image \<Rightarrow> nat \<Rightarrow> nat \<Rightarrow> bytes \<times> string \<Rightarrow> error + bytes \<times> string" where
  "pack_pixel img x y st =
     (case st of (byte_array, bit_str) \<Rightarrow>
        let pixel = getpixel img x y;
            bit_str = (if pixel = 255 then bit_str @ ''0'' else bit_str @ ''1'')
        in if (y + 1) mod 8 = 0
           then (case to_bytes1 (int2 bit_str) of
                   Inl e \<Rightarrow> Inl e
                 | Inr byte \<Rightarrow> Inr (byte_array @ [byte], ''''))
           else Inr (byte_array, bit_str))"

text \<open>\<^verbatim>\<open>for y in range(img.height)\<close>, as recursion over the list of rows.\<close>

fun pack_rows :: "image \<Rightarrow> nat \<Rightarrow> nat list \<Rightarrow> bytes \<times> string \<Rightarrow> error + bytes \<times> string" where
  "pack_rows img x [] st = Inr st"
| "pack_rows img x (y # ys) st =
     (case pack_pixel img x y st of
        Inl e \<Rightarrow> Inl e
      | Inr st' \<Rightarrow> pack_rows img x ys st')"

text \<open>\<^verbatim>\<open>for x in range(img.width)\<close>.\<close>

fun pack_cols :: "image \<Rightarrow> nat list \<Rightarrow> bytes \<times> string \<Rightarrow> error + bytes \<times> string" where
  "pack_cols img [] st = Inr st"
| "pack_cols img (x # xs) st =
     (case pack_rows img x [0..<height img] st of
        Inl e \<Rightarrow> Inl e
      | Inr st' \<Rightarrow> pack_cols img xs st')"

definition pack :: "image \<Rightarrow> error + bytes" where
  "pack img =
     (case pack_cols img [0..<width img] ([], '''') of
        Inl e \<Rightarrow> Inl e
      | Inr (byte_array, bit_str) \<Rightarrow> Inr byte_array)"


subsection \<open>Auxiliary notions for the packer\<close>

text \<open>
  The bit string that the inner loop accumulates over the rows \<open>ys\<close> of column \<open>x\<close>,
  and the byte emitted for the \<open>j\<close>-th group of eight rows of that column.
\<close>

definition bit_chars :: "image \<Rightarrow> nat \<Rightarrow> nat list \<Rightarrow> string" where
  "bit_chars img x ys = map (\<lambda>y. if getpixel img x y = 255 then CHR ''0'' else CHR ''1'') ys"

definition group_byte :: "image \<Rightarrow> nat \<Rightarrow> nat \<Rightarrow> byte" where
  "group_byte img x j = of_nat (int2 (bit_chars img x [8 * j..<8 * j + 8]))"

subsection \<open>Ordered dictionaries\<close>

text \<open>
  A \<^verbatim>\<open>collections.OrderedDict\<close> is the list of its items in insertion order; the
  keys of a dictionary are pairwise different. \<^verbatim>\<open>pop(k)\<close> removes the item of
  key \<open>k\<close> and returns its value (KeyError, here \<open>None\<close>, when there is none);
  \<^verbatim>\<open>d[k] = v\<close> replaces the value in place when the key exists and appends a new
  item at the end otherwise.
\<close>

type_synonym ('k, 'v) odict = "('k \<times> 'v) list"

fun od_pop :: "'k \<Rightarrow> ('k, 'v) odict \<Rightarrow> ('v \<times> ('k, 'v) odict) option" where
  "od_pop k [] = None"
| "od_pop k ((k', v) # kvs) =
     (if k' = k then Some (v, kvs)
      else (case od_pop k kvs of
              None \<Rightarrow> None
            | Some (w, kvs') \<Rightarrow> Some (w, (k', v) # kvs')))"

fun od_set :: "'k \<Rightarrow> 'v \<Rightarrow> ('k, 'v) odict \<Rightarrow> ('k, 'v) odict" where
  "od_set k v [] = [(k, v)]"
| "od_set k v ((k', v') # kvs) =
     (if k' = k then (k, v) # kvs else (k', v') # od_set k v kvs)"

subsection \<open>The printer object\<close>

text \<open>The font settings read from the configuration dictionary by \<^verbatim>\<open>__init__\<close>.\<close>

record settings =
  emoji_font_file :: string
  emoji_font_size :: int
  emoji_font_adjust_x :: int
  emoji_font_adjust_y :: int
  kanji_font_file :: string
  kanji_font_size :: int
  kanji_font_adjust_x :: int
  kanji_font_adjust_y :: int
  fallback_font_file :: string
  fallback_font_size :: int
  fallback_font_adjust_x :: int
  fallback_font_adjust_y :: int

text \<open>
  The attributes of a \<^verbatim>\<open>TM88IV\<close> instance. \<open>sent\<close> is the sequence of byte strings
  handed to \<^verbatim>\<open>self._raw\<close>, oldest first, and \<open>drawn\<close> the sequence of calls of the
  rasteriser \<^verbatim>\<open>draw.text\<close> (text, font file, size, offsets); both are the effects of
  the class on its collaborators. The font cache is the list of its keys: the font object
  stored under a key is built by \<^verbatim>\<open>ImageFont.truetype\<close> from the key alone.
\<close>

record printer =
  config :: settings
  jis_x_0201 :: "ustr list"
  jis_x_0208 :: "ustr list"
  jis_x_0212 :: "ustr list"
  jis_x_0213 :: "ustr list"
  user_areas :: "(bytes, ustr) odict"
  gaiji_areas :: "(bytes, ustr) odict"
  font_cache :: "(string \<times> int \<times> string) list"
  c1 :: bytes
  sent :: "bytes list"
  drawn :: "(ustr \<times> string \<times> int \<times> int \<times> int) list"

text \<open>
  The collaborators that are not part of the repository: \<^verbatim>\<open>emoji.is_emoji\<close>, the
  cp932 codec (\<open>None\<close> where a code point has no encoding) and the rendering of PIL.
  \<open>render font size text adjustX adjustY w h\<close> is the pixel function of the image
  obtained by drawing \<open>text\<close> at the offset on a white \<open>w\<close> by \<open>h\<close> canvas and
  converting it to mode 1.
\<close>

record externals =
  is_emoji :: "ustr \<Rightarrow> bool"
  cp932 :: "nat \<Rightarrow> bytes option"
  render :: "string \<Rightarrow> int \<Rightarrow> ustr \<Rightarrow> int \<Rightarrow> int \<Rightarrow> nat \<Rightarrow> nat \<Rightarrow> nat \<Rightarrow> nat \<Rightarrow> nat"

definition USER_AREAS_ASCII :: "bytes list" where
  "USER_AREAS_ASCII = [
      [0x20], [0x21], [0x22], [0x23], [0x24], [0x25], [0x26], [0x27],
      [0x28], [0x29], [0x2a], [0x2b], [0x2c], [0x2d], [0x2e], [0x2f],
      [0x30], [0x31], [0x32], [0x33], [0x34], [0x35], [0x36], [0x37],
      [0x38], [0x39], [0x3a], [0x3b], [0x3c], [0x3d], [0x3e], [0x3f],
      [0x40], [0x41], [0x42], [0x43], [0x44], [0x45], [0x46], [0x47],
      [0x48], [0x49], [0x4a], [0x4b], [0x4c], [0x4d], [0x4e], [0x4f],
      [0x50], [0x51], [0x52], [0x53], [0x54], [0x55], [0x56], [0x57],
      [0x58], [0x59], [0x5a], [0x5b], [0x5c], [0x5d], [0x5e], [0x5f],
      [0x60], [0x61], [0x62], [0x63], [0x64], [0x65], [0x66], [0x67],
      [0x68], [0x69], [0x6a], [0x6b], [0x6c], [0x6d], [0x6e], [0x6f],
      [0x70], [0x71], [0x72], [0x73], [0x74], [0x75], [0x76], [0x77],
      [0x78], [0x79], [0x7a], [0x7b], [0x7c], [0x7d], [0x7e]]"

definition USER_KANJI_AREAS_SJIS :: "bytes list" where
  "USER_KANJI_AREAS_SJIS = [
      [0x40], [0x41], [0x42], [0x43], [0x44], [0x45], [0x46], [0x47],
      [0x48], [0x49], [0x4a], [0x4b], [0x4c], [0x4d], [0x4e], [0x4f],
      [0x50], [0x51], [0x52], [0x53], [0x54], [0x55], [0x56], [0x57],
      [0x58], [0x59], [0x5a], [0x5b], [0x5c], [0x5d], [0x5e], [0x5f],
      [0x60], [0x61], [0x62], [0x63], [0x64], [0x65], [0x66], [0x67],
      [0x68], [0x69], [0x6a], [0x6b], [0x6c], [0x6d], [0x6e], [0x6f],
      [0x70], [0x71], [0x72], [0x73], [0x74], [0x75], [0x76], [0x77],
      [0x78], [0x79], [0x7a], [0x7b], [0x7c], [0x7d], [0x7e], [0x80],
      [0x81], [0x82], [0x83], [0x84], [0x85], [0x86], [0x87], [0x88],
      [0x89], [0x8a], [0x8b], [0x8c], [0x8d], [0x8e], [0x8f], [0x90],
      [0x91], [0x92], [0x93], [0x94], [0x95], [0x96], [0x97], [0x98],
      [0x99], [0x9a], [0x9b], [0x9c], [0x9d], [0x9e]]"

text \<open>\<^verbatim>\<open>self._raw(msg)\<close>: the transport receives one more byte string.\<close>

definition raw :: "bytes \<Rightarrow> printer \<Rightarrow> printer" where
  "raw msg p = p\<lparr>sent := sent p @ [msg]\<rparr>"

text \<open>
  \<^verbatim>\<open>__init__\<close> after the file checks and the connection set-up: both pools get one
  free slot per code of their area, in the order of the area, and the three mode commands
  are sent. The four character tables are what \<^verbatim>\<open>_load_jis_character_set\<close> reads
  from the data files.
\<close>

definition init :: "settings \<Rightarrow> ustr list \<Rightarrow> ustr list \<Rightarrow> ustr list \<Rightarrow> ustr list \<Rightarrow> printer" where
  "init cfg t0201 t0208 t0212 t0213 =
     (let p = \<lparr>config = cfg,
                jis_x_0201 = [], jis_x_0208 = [], jis_x_0212 = [], jis_x_0213 = [],
                user_areas = foldl (\<lambda>d area. od_set area [] d) [] USER_AREAS_ASCII,
                gaiji_areas = foldl (\<lambda>d area. od_set area [] d) [] USER_KANJI_AREAS_SJIS,
                font_cache = [],
                c1 = [0xec],
                sent = [],
                drawn = []\<rparr>;
          p = raw (ESC @ ascii ''t'' @ [0x01]) p;
          p = raw (FS @ ascii ''&'') p;
          p = raw (FS @ ascii ''C'' @ [0x01]) p
      in p\<lparr>jis_x_0201 := t0201, jis_x_0208 := t0208, jis_x_0212 := t0212, jis_x_0213 := t0213\<rparr>)"

text \<open>\<^verbatim>\<open>_get_font\<close>: a font is loaded once per key.\<close>

definition get_font :: "string \<Rightarrow> int \<Rightarrow> string \<Rightarrow> printer \<Rightarrow> printer" where
  "get_font font_path size' encoding p =
     (let key = (font_path, size', encoding)
      in if key \<notin> set (font_cache p) then p\<lparr>font_cache := font_cache p @ [key]\<rparr> else p)"

subsection \<open>Registering a glyph on the device\<close>

text \<open>
  \<^verbatim>\<open>_escpos_register_gaiji\<close>: draw the character on a 12 by 24 canvas (download
  character) or a 24 by 24 canvas (user-defined kanji), pack the bitmap, then send the
  definition command and the packed bytes one by one.
\<close>

definition escpos_register_gaiji ::
  "externals \<Rightarrow> bytes \<Rightarrow> ustr \<Rightarrow> string \<Rightarrow> int \<Rightarrow> int \<Rightarrow> int \<Rightarrow> bool \<Rightarrow> printer
     \<Rightarrow> (error + unit) \<times> printer" where
  "escpos_register_gaiji ext c2 gaiji font size' adjustX adjustY asciiflg p =
     (let w = (if asciiflg then 12 else 24);
          h = 24;
          p = get_font font size' ''unic'' p;
          p = p\<lparr>drawn := drawn p @ [(gaiji, font, size', adjustX, adjustY)]\<rparr>;
          img = \<lparr>width = w, height = h, getpixel = render ext font size' gaiji adjustX adjustY w h\<rparr>
      in case pack img of
           Inl e \<Rightarrow> (Inl e, p)
         | Inr byte_array \<Rightarrow>
             let p = (if asciiflg
                      then raw [0x0c] (raw (ESC @ ascii ''&'' @ [0x03] @ c2 @ c2) p)
                      else raw (FS @ ascii ''2'' @ c1 p @ c2) p)
             in (Inr (), foldl (\<lambda>p byte. raw [byte] p) p byte_array))"

text \<open>
  The image that \<^verbatim>\<open>_escpos_register_gaiji\<close> packs, and the bytes it packs to (three per
  column, see the section on the packer).
\<close>

definition glyph_image :: "externals \<Rightarrow> bool \<Rightarrow> string \<Rightarrow> int \<Rightarrow> ustr \<Rightarrow> int \<Rightarrow> int \<Rightarrow> image" where
  "glyph_image ext asciiflg font size' gaiji adjustX adjustY =
     \<lparr>width = (if asciiflg then 12 else 24), height = 24,
      getpixel = render ext font size' gaiji adjustX adjustY (if asciiflg then 12 else 24) 24\<rparr>"

definition glyph_bytes :: "externals \<Rightarrow> bool \<Rightarrow> string \<Rightarrow> int \<Rightarrow> ustr \<Rightarrow> int \<Rightarrow> int \<Rightarrow> bytes" where
  "glyph_bytes ext asciiflg font size' gaiji adjustX adjustY =
     (let img = glyph_image ext asciiflg font size' gaiji adjustX adjustY
      in concat (map (\<lambda>x. map (group_byte img x) [0..<3]) [0..<width img]))"

text \<open>
  The first loop of \<^verbatim>\<open>_define_gaiji\<close>: the key of the first slot, in dictionary order,
  whose occupant equals the character.
\<close>

fun find_slot :: "ustr \<Rightarrow> (bytes, ustr) odict \<Rightarrow> bytes option" where
  "find_slot gaiji [] = None"
| "find_slot gaiji ((k, v) # kvs) = (if v = gaiji then Some k else find_slot gaiji kvs)"

text \<open>
  \<^verbatim>\<open>_define_gaiji\<close>. On a hit the slot is popped and stored again, which moves it to
  the end of the dictionary. On a miss the first slot of the dictionary is popped, stored
  again with the new character, and defined on the device. An empty dictionary runs
  neither loop body and reaches the final \<^verbatim>\<open>return b''\<close>.

  The return statement of the hit branch of the download-character pool reads
  \<^verbatim>\<open>ESC + b'%' +' \x01' + k + ESC + b'%' + b'\x00'\<close>: its third operand is a
  \<^verbatim>\<open>str\<close>, and adding a \<^verbatim>\<open>str\<close> to \<^verbatim>\<open>bytes\<close> raises TypeError, after the
  slot has been moved.
\<close>

definition define_gaiji ::
  "externals \<Rightarrow> ustr \<Rightarrow> string \<Rightarrow> int \<Rightarrow> int \<Rightarrow> int \<Rightarrow> bool \<Rightarrow> printer
     \<Rightarrow> (error + bytes) \<times> printer" where
  "define_gaiji ext gaiji font size' adjustX adjustY asciiflg p =
     (if asciiflg then
        (case find_slot gaiji (user_areas p) of
           Some k \<Rightarrow>
             (case od_pop k (user_areas p) of
                None \<Rightarrow> (Inl KeyError, p)
              | Some (v, d) \<Rightarrow> (Inl TypeError, p\<lparr>user_areas := od_set k v d\<rparr>))
         | None \<Rightarrow>
             (case user_areas p of
                [] \<Rightarrow> (Inr [], p)
              | (k, v) # _ \<Rightarrow>
                  (case od_pop k (user_areas p) of
                     None \<Rightarrow> (Inl KeyError, p)
                   | Some (_, d) \<Rightarrow>
                       (case escpos_register_gaiji ext k gaiji font size' adjustX adjustY asciiflg
                               (p\<lparr>user_areas := od_set k gaiji d\<rparr>) of
                          (Inl e, p') \<Rightarrow> (Inl e, p')
                        | (Inr _, p') \<Rightarrow>
                            (Inr (ESC @ ascii ''%'' @ [0x01] @ k @ ESC @ ascii ''%'' @ [0x00]), p')))))
      else
        (case find_slot gaiji (gaiji_areas p) of
           Some k \<Rightarrow>
             (case od_pop k (gaiji_areas p) of
                None \<Rightarrow> (Inl KeyError, p)
              | Some (v, d) \<Rightarrow> (Inr (c1 p @ k), p\<lparr>gaiji_areas := od_set k v d\<rparr>))
         | None \<Rightarrow>
             (case gaiji_areas p of
                [] \<Rightarrow> (Inr [], p)
              | (k, v) # _ \<Rightarrow>
                  (case od_pop k (gaiji_areas p) of
                     None \<Rightarrow> (Inl KeyError, p)
                   | Some (_, d) \<Rightarrow>
                       (case escpos_register_gaiji ext k gaiji font size' adjustX adjustY asciiflg
                               (p\<lparr>gaiji_areas := od_set k gaiji d\<rparr>) of
                          (Inl e, p') \<Rightarrow> (Inl e, p')
                        | (Inr _, p') \<Rightarrow> (Inr (c1 p' @ k), p'))))))"

subsection \<open>Printing text\<close>

text \<open>
  The keyword arguments built by one branch of the loop of \<^verbatim>\<open>jptext2\<close>, and the
  outcome of its \<^verbatim>\<open>if\<close>/\<^verbatim>\<open>elif\<close> chain: either the bytes of the built-in font
  (\<^verbatim>\<open>call_define = False\<close>) or the arguments of \<^verbatim>\<open>_define_gaiji\<close>
  (\<^verbatim>\<open>call_define = True\<close>).
\<close>

record params =
  font :: string
  size' :: int
  adjustX :: int
  adjustY :: int
  asciiflg :: bool

datatype branch = Builtin bytes | CallDefine params

text \<open>\<^verbatim>\<open>s.isascii()\<close> and \<^verbatim>\<open>s.encode('cp932', 'ignore')\<close>.\<close>

definition isascii :: "ustr \<Rightarrow> bool" where
  "isascii s = list_all (\<lambda>ch. ch < 128) s"

definition encode_ignore :: "(nat \<Rightarrow> bytes option) \<Rightarrow> ustr \<Rightarrow> bytes" where
  "encode_ignore codec s = concat (map (\<lambda>ch. case codec ch of None \<Rightarrow> [] | Some bs \<Rightarrow> bs) s)"

definition classify :: "externals \<Rightarrow> nat \<Rightarrow> printer \<Rightarrow> branch" where
  "classify ext c p =
     (if isascii [c] \<or> [c] \<in> set (jis_x_0201 p) \<or> [c] \<in> set (jis_x_0208 p) then
        Builtin (encode_ignore (cp932 ext) [c])
      else if [c] \<in> set (jis_x_0212 p) \<or> [c] \<in> set (jis_x_0213 p) then
        CallDefine \<lparr>font = kanji_font_file (config p),
                    size' = kanji_font_size (config p),
                    adjustX = kanji_font_adjust_x (config p),
                    adjustY = kanji_font_adjust_y (config p),
                    asciiflg = False\<rparr>
      else if is_emoji ext [c] then
        CallDefine \<lparr>font = emoji_font_file (config p),
                    size' = emoji_font_size (config p),
                    adjustX = emoji_font_adjust_x (config p),
                    adjustY = emoji_font_adjust_y (config p),
                    asciiflg = False\<rparr>
      else
        CallDefine \<lparr>font = fallback_font_file (config p),
                    size' = fallback_font_size (config p),
                    adjustX = fallback_font_adjust_x (config p),
                    adjustY = fallback_font_adjust_y (config p),
                    asciiflg = False\<rparr>)"

text \<open>One iteration of the loop of \<^verbatim>\<open>jptext2\<close> for the character \<open>c\<close>.\<close>

definition jptext2_char :: "externals \<Rightarrow> nat \<Rightarrow> printer \<Rightarrow> (error + unit) \<times> printer" where
  "jptext2_char ext c p =
     (case classify ext c p of
        Builtin binary_str \<Rightarrow> (Inr (), raw binary_str p)
      | CallDefine ps \<Rightarrow>
          (case define_gaiji ext [c] (font ps) (size' ps) (adjustX ps) (adjustY ps) (asciiflg ps) p of
             (Inl e, p') \<Rightarrow> (Inl e, p')
           | (Inr binary_str, p') \<Rightarrow> (Inr (), raw binary_str p')))"

text \<open>\<^verbatim>\<open>for c in text\<close>: an exception ends the loop.\<close>

fun jptext2_loop :: "externals \<Rightarrow> ustr \<Rightarrow> printer \<Rightarrow> (error + unit) \<times> printer" where
  "jptext2_loop ext [] p = (Inr (), p)"
| "jptext2_loop ext (c # cs) p =
     (case jptext2_char ext c p of
        (Inl e, p') \<Rightarrow> (Inl e, p')
      | (Inr _, p') \<Rightarrow> jptext2_loop ext cs p')"

text \<open>
  The mode bytes \<open>n\<close> (kanji print mode) and \<open>b\<close> (print mode of one-byte characters)
  computed at the start of \<^verbatim>\<open>jptext2\<close>.
\<close>

definition mode_bytes :: "bool \<Rightarrow> bool \<Rightarrow> bool \<Rightarrow> nat \<times> nat" where
  "mode_bytes dw dh underline =
     (let n = 0x00; b = 0x00;
          (n, b) = (if dw then (n + 0x04, b + 0x10) else (n, b));
          (n, b) = (if dh then (n + 0x08, b + 0x20) else (n, b));
          (n, b) = (if underline then (n + 0x80, b + 0x80) else (n, b))
      in (n, b))"

text \<open>The commands sent before the loop.\<close>

definition set_modes :: "nat \<Rightarrow> nat \<Rightarrow> bool \<Rightarrow> bool \<Rightarrow> printer \<Rightarrow> (error + unit) \<times> printer" where
  "set_modes n b wbreverse bflg p =
     (case (if n \<noteq> 0x00 then
              (case (if bflg then
                       (case to_bytes1 b of
                          Inl e \<Rightarrow> (Inl e, p)
                        | Inr x \<Rightarrow> (Inr (), raw (ESC @ ascii ''!'' @ [x]) p))
                     else (Inr (), p)) of
                 (Inl e, p') \<Rightarrow> (Inl e, p')
               | (Inr _, p') \<Rightarrow>
                   (case to_bytes1 n of
                      Inl e \<Rightarrow> (Inl e, p')
                    | Inr x \<Rightarrow> (Inr (), raw (FS @ ascii ''!'' @ [x]) p')))
            else (Inr (), p)) of
        (Inl e, p') \<Rightarrow> (Inl e, p')
      | (Inr _, p') \<Rightarrow>
          (Inr (), if wbreverse then raw (GS @ ascii ''B'' @ [0x01]) p' else p'))"

text \<open>The commands sent after the loop.\<close>

definition clear_modes :: "nat \<Rightarrow> bool \<Rightarrow> bool \<Rightarrow> printer \<Rightarrow> printer" where
  "clear_modes n wbreverse bflg p =
     (let p = (if n \<noteq> 0x00
               then (let p = (if bflg then raw (ESC @ ascii ''!'' @ [0x00]) p else p)
                     in raw (FS @ ascii ''!'' @ [0x00]) p)
               else p)
      in if wbreverse then raw (GS @ ascii ''B'' @ [0x00]) p else p)"

definition jptext2 ::
  "externals \<Rightarrow> ustr \<Rightarrow> bool \<Rightarrow> bool \<Rightarrow> bool \<Rightarrow> bool \<Rightarrow> bool \<Rightarrow> printer \<Rightarrow> (error + unit) \<times> printer" where
  "jptext2 ext text dw dh underline wbreverse bflg p =
     (case mode_bytes dw dh underline of (n, b) \<Rightarrow>
        (case set_modes n b wbreverse bflg p of
           (Inl e, p') \<Rightarrow> (Inl e, p')
         | (Inr _, p') \<Rightarrow>
             (case jptext2_loop ext text p' of
                (Inl e, p'') \<Rightarrow> (Inl e, p'')
              | (Inr _, p'') \<Rightarrow> (Inr (), clear_modes n wbreverse bflg p''))))"

subsection \<open>Invariants of the slot pools\<close>

text \<open>
  A pool of \<open>n\<close> slots: \<open>n\<close> items, pairwise different slot codes, and no character
  in two slots (free slots hold the empty string). The printer keeps 95 download-character
  slots and 94 user-defined kanji slots.
\<close>

definition pool_inv :: "nat \<Rightarrow> (bytes, ustr) odict \<Rightarrow> bool" where
  "pool_inv n d \<longleftrightarrow>
     length d = n \<and> distinct (map fst d) \<and> distinct (filter (\<lambda>v. v \<noteq> []) (map snd d))"

definition printer_inv :: "printer \<Rightarrow> bool" where
  "printer_inv p \<longleftrightarrow> pool_inv 95 (user_areas p) \<and> pool_inv 94 (gaiji_areas p)"

subsection \<open>Auxiliary notions for the output\<close>

text \<open>
  The messages sent between a state and a later one; a function of the printer that looks
  at the messages sent so far in no way and only appends to them; and two states that agree
  on the settings, the character tables and the first byte of the user-defined codes, none
  of which is written after construction.
\<close>

definition emitted :: "printer \<Rightarrow> printer \<Rightarrow> bytes list" where
  "emitted p p' = drop (length (sent p)) (sent p')"

definition frame :: "(printer \<Rightarrow> 'a \<times> printer) \<Rightarrow> bool" where
  "frame f \<longleftrightarrow>
     (\<forall>p ms. f (p\<lparr>sent := ms\<rparr>) = (fst (f p), (snd (f p))\<lparr>sent := ms @ emitted p (snd (f p))\<rparr>))"

definition static :: "printer \<Rightarrow> printer \<Rightarrow> bool" where
  "static p q \<longleftrightarrow>
     config q = config p \<and> jis_x_0201 q = jis_x_0201 p \<and> jis_x_0208 q = jis_x_0208 p \<and>
     jis_x_0212 q = jis_x_0212 p \<and> jis_x_0213 q = jis_x_0213 p \<and> c1 q = c1 p"

subsection \<open>A sample session\<close>

text \<open>
  The default settings of the constructor, collaborators that encode ASCII and one kana,
  know one emoji and draw blank glyphs, and the printer right after construction with
  small character tables.
\<close>

definition cfg0 :: settings where
  "cfg0 = \<lparr>emoji_font_file = ''OpenMoji-black-glyf.ttf'', emoji_font_size = 20,
            emoji_font_adjust_x = 0, emoji_font_adjust_y = 0,
            kanji_font_file = ''NotoSansJP-Medium.otf'', kanji_font_size = 24,
            kanji_font_adjust_x = 0, kanji_font_adjust_y = - 8,
            fallback_font_file = ''unifont_jp-16.0.03.otf'', fallback_font_size = 24,
            fallback_font_adjust_x = 2, fallback_font_adjust_y = 0\<rparr>"

definition ext0 :: externals where
  "ext0 = \<lparr>is_emoji = (\<lambda>s. s = [0x1F44D]),
            cp932 = (\<lambda>ch. if ch < 128 then Some [of_nat ch]
                          else if ch = 0x3042 then Some [0x82, 0xa0] else None),
            render = (\<lambda>fnt sz s ax ay w h x y. 255)\<rparr>"

definition p0 :: printer where
  "p0 = init cfg0 [[0xA5], [0x203E]] [[0x3042]] [[0x4E02]] [[0x4FF1]]"

section \<open>The bit packer\<close>

lemma int2_snoc: "int2 (s @ [c]) = 2 * int2 s + (if c = CHR ''1'' then 1 else 0)"
  by (simp add: int2_def)

lemma int2_Nil: "int2 [] = 0"
  by (simp add: int2_def)

lemma int2_less: "int2 s < 2 ^ length s"
proof (induction s rule: rev_induct)
  case Nil
  then show ?case by (simp add: int2_Nil)
next
  case (snoc c s)
  then show ?case by (simp add: int2_snoc)
qed

lemma pack_rows_append:
  "pack_rows img x (ys @ zs) st =
     (case pack_rows img x ys st of Inl e \<Rightarrow> Inl e | Inr st' \<Rightarrow> pack_rows img x zs st')"
  by (induction ys arbitrary: st) (auto split: sum.splits)

lemma bit_chars_snoc:
  "bit_chars img x (ys @ [y]) = bit_chars img x ys @ [if getpixel img x y = 255 then CHR ''0'' else CHR ''1'']"
  by (simp add: bit_chars_def)

lemma pack_rows_partial:
  "n < 8 \<Longrightarrow> pack_rows img x [8 * j..<8 * j + n] (ba, s) = Inr (ba, s @ bit_chars img x [8 * j..<8 * j + n])"
proof (induction n)
  case 0
  then show ?case by (simp add: bit_chars_def)
next
  case (Suc n)
  then have IH: "pack_rows img x [8 * j..<8 * j + n] (ba, s) = Inr (ba, s @ bit_chars img x [8 * j..<8 * j + n])"
    by simp
  have m: "(8 * j + n + 1) mod 8 \<noteq> 0" using Suc.prems by presburger
  have up: "[8 * j..<8 * j + Suc n] = [8 * j..<8 * j + n] @ [8 * j + n]" by simp
  show ?case
    unfolding up pack_rows_append IH bit_chars_snoc
    using m by (simp add: pack_pixel_def)
qed

lemma bit_int2: "bit (int2 s) n \<longleftrightarrow> n < length s \<and> s ! (length s - 1 - n) = CHR ''1''"
proof (induction s arbitrary: n rule: rev_induct)
  case Nil
  then show ?case by (simp add: int2_Nil)
next
  case (snoc c s)
  show ?case
  proof (cases n)
    case 0
    have "bit (int2 (s @ [c])) 0 \<longleftrightarrow> c = CHR ''1''"
      unfolding int2_snoc bit_0 by simp
    then show ?thesis using 0 by simp
  next
    case (Suc m)
    have d: "(2 * int2 s + (if c = CHR ''1'' then 1 else 0)) div 2 = int2 s"
      by simp
    have "bit (int2 (s @ [c])) (Suc m) = bit (int2 s) m"
      unfolding int2_snoc bit_Suc d ..
    also have "\<dots> \<longleftrightarrow> m < length s \<and> s ! (length s - 1 - m) = CHR ''1''"
      by (rule snoc.IH)
    also have "\<dots> \<longleftrightarrow> Suc m < length (s @ [c]) \<and> (s @ [c]) ! (length (s @ [c]) - 1 - Suc m) = CHR ''1''"
    proof (cases "m < length s")
      case True
      then have "length s - Suc m < length s" by simp
      then have "(s @ [c]) ! (length s - Suc m) = s ! (length s - Suc m)"
        by (simp only: nth_append if_True)
      with True show ?thesis by simp
    next
      case False
      then show ?thesis by simp
    qed
    finally show ?thesis using Suc by simp
  qed
qed

lemma upt_group: "[8 * j..<8 * j + 8] = [8 * j..<8 * j + 7] @ [8 * j + 7]"
proof -
  have "[8 * j..<Suc (8 * j + 7)] = [8 * j..<8 * j + 7] @ [8 * j + 7]"
    by (rule upt_Suc_append) simp
  moreover have "Suc (8 * j + 7) = 8 * j + 8" by simp
  ultimately show ?thesis by (simp only:)
qed

lemma length_bit_chars: "length (bit_chars img x ys) = length ys"
  by (simp add: bit_chars_def)

lemma pack_rows_group:
  "pack_rows img x [8 * j..<8 * j + 8] (ba, '''') = Inr (ba @ [group_byte img x j], '''')"
proof -
  let ?s = "bit_chars img x [8 * j..<8 * j + 8]"
  have p7: "pack_rows img x [8 * j..<8 * j + 7] (ba, '''') = Inr (ba, bit_chars img x [8 * j..<8 * j + 7])"
    using pack_rows_partial [of 7 img x j ba "''''"] by simp
  have s: "bit_chars img x [8 * j..<8 * j + 7] @ [if getpixel img x (8 * j + 7) = 255 then CHR ''0'' else CHR ''1''] = ?s"
    by (simp only: upt_group bit_chars_snoc)
  have "length ?s = 8" by (simp only: length_bit_chars length_upt)
  with int2_less [of ?s] have lt: "int2 ?s < 256" by simp
  have m: "(8 * j + 7 + 1) mod 8 = 0" by presburger
  have px: "pack_pixel img x (8 * j + 7) (ba, bit_chars img x [8 * j..<8 * j + 7]) = Inr (ba @ [group_byte img x j], '''')"
  proof (cases "getpixel img x (8 * j + 7) = 255")
    case True
    with s have "bit_chars img x [8 * j..<8 * j + 7] @ ''0'' = ?s" by simp
    with True m lt show ?thesis
      by (simp add: pack_pixel_def to_bytes1_def group_byte_def del: upt_Suc)
  next
    case False
    with s have "bit_chars img x [8 * j..<8 * j + 7] @ ''1'' = ?s" by simp
    with False m lt show ?thesis
      by (simp add: pack_pixel_def to_bytes1_def group_byte_def del: upt_Suc)
  qed
  have "pack_rows img x ([8 * j..<8 * j + 7] @ [8 * j + 7]) (ba, '''') = Inr (ba @ [group_byte img x j], '''')"
    by (simp only: pack_rows_append p7 sum.case pack_rows.simps px)
  then show ?thesis by (simp only: upt_group)
qed

lemma upt_groups: "[0..<8 * Suc h] = [0..<8 * h] @ [8 * h..<8 * h + 8]"
proof -
  have "[0..<8 * h + 8] = [0..<8 * h] @ [8 * h..<8 * h + 8]"
    by (rule upt_add_eq_append) simp
  moreover have "8 * Suc h = 8 * h + 8" by simp
  ultimately show ?thesis by (simp only:)
qed

lemma pack_rows_groups:
  "pack_rows img x [0..<8 * h] (ba, '''') = Inr (ba @ map (group_byte img x) [0..<h], '''')"
proof (induction h)
  case 0
  then show ?case by simp
next
  case (Suc h)
  have "pack_rows img x ([0..<8 * h] @ [8 * h..<8 * h + 8]) (ba, '''') =
        Inr ((ba @ map (group_byte img x) [0..<h]) @ [group_byte img x h], '''')"
    by (simp only: pack_rows_append Suc.IH sum.case pack_rows_group)
  then show ?case by (simp only: upt_groups) simp
qed

lemma pack_cols_groups:
  "height img = 8 * h \<Longrightarrow>
   pack_cols img xs (ba, '''') = Inr (ba @ concat (map (\<lambda>x. map (group_byte img x) [0..<h]) xs), '''')"
  by (induction xs arbitrary: ba) (simp_all add: pack_rows_groups)

lemma pack_groups:
  "height img = 8 * h \<Longrightarrow>
   pack img = Inr (concat (map (\<lambda>x. map (group_byte img x) [0..<h]) [0..<width img]))"
  by (simp add: pack_def pack_cols_groups)

lemma length_concat_uniform:
  "length (concat (map (\<lambda>x. map (f x) [0..<h]) [0..<w])) = w * h"
  by (induction w) simp_all

lemma nth_concat_uniform:
  "x < w \<Longrightarrow> j < h \<Longrightarrow> concat (map (\<lambda>x. map (f x) [0..<h]) [0..<w]) ! (x * h + j) = f x j"
proof (induction w)
  case 0
  then show ?case by simp
next
  case (Suc w)
  let ?pre = "concat (map (\<lambda>x. map (f x) [0..<h]) [0..<w])"
  have len: "length ?pre = w * h" by (rule length_concat_uniform)
  have split: "concat (map (\<lambda>x. map (f x) [0..<h]) [0..<Suc w]) = ?pre @ map (f w) [0..<h]"
    by simp
  show ?case
  proof (cases "x < w")
    case True
    then have "Suc x \<le> w" by simp
    then have "Suc x * h \<le> w * h" by (rule mult_le_mono1)
    with Suc.prems(2) have lt: "x * h + j < w * h" by simp
    have "(?pre @ map (f w) [0..<h]) ! (x * h + j) = ?pre ! (x * h + j)"
      using lt len by (simp only: nth_append if_True)
    with Suc.IH [OF True Suc.prems(2)] show ?thesis by (simp only: split)
  next
    case False
    with Suc.prems have xw: "x = w" by simp
    have "(?pre @ map (f w) [0..<h]) ! (w * h + j) = map (f w) [0..<h] ! j"
      using len by (simp only: nth_append_length_plus [of ?pre, unfolded len])
    with Suc.prems(2) xw show ?thesis by (simp only: split) simp
  qed
qed

lemma bit_group_byte:
  assumes i: "i < 8"
  shows "bit (group_byte img x j) (7 - i) \<longleftrightarrow> getpixel img x (8 * j + i) \<noteq> 255"
proof -
  let ?s = "bit_chars img x [8 * j..<8 * j + 8]"
  have len: "length ?s = 8" by (simp only: length_bit_chars length_upt)
  have nth: "?s ! i = (if getpixel img x (8 * j + i) = 255 then CHR ''0'' else CHR ''1'')"
    unfolding bit_chars_def using i by (simp del: upt_Suc)
  have "bit (group_byte img x j) (7 - i) \<longleftrightarrow> bit (int2 ?s) (7 - i)"
  proof -
    have "7 - i < 8" by arith
    then show ?thesis
      unfolding group_byte_def by (simp add: bit_of_nat_iff del: upt_Suc)
  qed
  also have "\<dots> \<longleftrightarrow> ?s ! (8 - 1 - (7 - i)) = CHR ''1''"
  proof -
    have "7 - i < 8" by arith
    then show ?thesis unfolding bit_int2 len by simp
  qed
  also have "8 - 1 - (7 - i) = i" using i by simp
  finally show ?thesis by (simp add: nth)
qed

lemma group_byte_black:
  assumes "\<forall>i<8. getpixel img x (8 * j + i) \<noteq> 255"
  shows "group_byte img x j = 0xFF"
proof (rule bit_eqI)
  fix n
  show "bit (group_byte img x j) n \<longleftrightarrow> bit (0xFF :: byte) n"
  proof (cases "n < 8")
    case True
    then have n: "7 - (7 - n) = n" and l: "7 - n < 8" by arith+
    have "bit (group_byte img x j) (7 - (7 - n)) \<longleftrightarrow> getpixel img x (8 * j + (7 - n)) \<noteq> 255"
      by (rule bit_group_byte [OF l])
    then have "bit (group_byte img x j) n \<longleftrightarrow> getpixel img x (8 * j + (7 - n)) \<noteq> 255"
      by (simp only: n)
    with assms l have "bit (group_byte img x j) n" by simp
    moreover have "bit (0xFF :: byte) n"
    proof -
      have "(0xFF :: byte) = - 1" by simp
      moreover have "bit (- 1 :: byte) n" using True by (simp add: bit_minus_1_iff)
      ultimately show ?thesis by (simp only:)
    qed
    ultimately show ?thesis by simp
  next
    case False
    then have "\<not> bit (group_byte img x j) n" and "\<not> bit (0xFF :: byte) n"
      by (auto dest: bit_imp_le_length)
    then show ?thesis by simp
  qed
qed

lemma group_byte_white:
  assumes "\<forall>i<8. getpixel img x (8 * j + i) = 255"
  shows "group_byte img x j = 0x00"
proof (rule bit_eqI)
  fix n
  show "bit (group_byte img x j) n \<longleftrightarrow> bit (0x00 :: byte) n"
  proof (cases "n < 8")
    case True
    then have n: "7 - (7 - n) = n" and l: "7 - n < 8" by arith+
    have "bit (group_byte img x j) (7 - (7 - n)) \<longleftrightarrow> getpixel img x (8 * j + (7 - n)) \<noteq> 255"
      by (rule bit_group_byte [OF l])
    then have "bit (group_byte img x j) n \<longleftrightarrow> getpixel img x (8 * j + (7 - n)) \<noteq> 255"
      by (simp only: n)
    with assms l have "\<not> bit (group_byte img x j) n" by simp
    then show ?thesis by simp
  next
    case False
    then have "\<not> bit (group_byte img x j) n"
      by (auto dest: bit_imp_le_length)
    then show ?thesis by simp
  qed
qed

lemma concat_uniform_const:
  assumes "\<forall>x<w. \<forall>j<h. f x j = c"
  shows "concat (map (\<lambda>x. map (f x) [0..<h]) [0..<w]) = replicate (w * h) c"
proof (rule nth_equalityI)
  show "length (concat (map (\<lambda>x. map (f x) [0..<h]) [0..<w])) = length (replicate (w * h) c)"
    by (simp only: length_concat_uniform length_replicate)
next
  fix k
  assume "k < length (concat (map (\<lambda>x. map (f x) [0..<h]) [0..<w]))"
  then have k: "k < w * h" by (simp only: length_concat_uniform)
  then have h: "0 < h" by (cases h) simp_all
  have x: "k div h < w" using k h by (simp add: less_mult_imp_div_less)
  have j: "k mod h < h" using h by simp
  have "concat (map (\<lambda>x. map (f x) [0..<h]) [0..<w]) ! (k div h * h + k mod h) = f (k div h) (k mod h)"
    by (rule nth_concat_uniform [OF x j])
  then have "concat (map (\<lambda>x. map (f x) [0..<h]) [0..<w]) ! k = f (k div h) (k mod h)"
    by simp
  with assms x j k show "concat (map (\<lambda>x. map (f x) [0..<h]) [0..<w]) ! k = replicate (w * h) c ! k"
    by simp
qed

text \<open>
  C4. Packing a bitmap of height 24 never fails and yields three bytes per column, columns
  from left to right and the three groups of eight rows of a column from top to bottom;
  bit \<open>7 - i\<close> of a byte is set exactly when row \<open>i\<close> of its group is not white. A black
  24 by 24 bitmap packs to 72 bytes 0xFF and a white one to 72 bytes 0x00.
\<close>

theorem pack_column_major:
  assumes "height img = 24"
  shows "\<exists>bs. pack img = Inr bs \<and> length bs = width img * 3 \<and>
           (\<forall>x<width img. \<forall>j<3. \<forall>i<8.
              bit (bs ! (x * 3 + j)) (7 - i) \<longleftrightarrow> getpixel img x (8 * j + i) \<noteq> 255) \<and>
           (width img = 24 \<and> (\<forall>x<24. \<forall>y<24. getpixel img x y \<noteq> 255) \<longrightarrow> bs = replicate 72 0xFF) \<and>
           (width img = 24 \<and> (\<forall>x<24. \<forall>y<24. getpixel img x y = 255) \<longrightarrow> bs = replicate 72 0x00)"
proof -
  let ?bs = "concat (map (\<lambda>x. map (group_byte img x) [0..<3]) [0..<width img])"
  from assms have "height img = 8 * 3" by simp
  then have p: "pack img = Inr ?bs" by (rule pack_groups)
  have len: "length ?bs = width img * 3" by (rule length_concat_uniform)
  have bits: "\<forall>x<width img. \<forall>j<3. \<forall>i<8.
      bit (?bs ! (x * 3 + j)) (7 - i) \<longleftrightarrow> getpixel img x (8 * j + i) \<noteq> 255"
  proof (intro allI impI)
    fix x j i :: nat
    assume x: "x < width img" and j: "j < 3" and i: "i < 8"
    have "?bs ! (x * 3 + j) = group_byte img x j"
      by (rule nth_concat_uniform [OF x j])
    with bit_group_byte [OF i, of img x j]
    show "bit (?bs ! (x * 3 + j)) (7 - i) \<longleftrightarrow> getpixel img x (8 * j + i) \<noteq> 255"
      by (simp only:)
  qed
  have black: "?bs = replicate 72 0xFF"
    if w: "width img = 24" and px: "\<forall>x<24. \<forall>y<24. getpixel img x y \<noteq> 255"
  proof -
    have "\<forall>x<24. \<forall>j<3. group_byte img x j = 0xFF"
    proof (intro allI impI)
      fix x j :: nat
      assume "x < 24" "j < 3"
      with px have "\<forall>i<8. getpixel img x (8 * j + i) \<noteq> 255" by simp
      then show "group_byte img x j = 0xFF" by (rule group_byte_black)
    qed
    then have "concat (map (\<lambda>x. map (group_byte img x) [0..<3]) [0..<24]) = replicate (24 * 3) 0xFF"
      by (rule concat_uniform_const)
    then show ?thesis by (simp only: w) simp
  qed
  have white: "?bs = replicate 72 0x00"
    if w: "width img = 24" and px: "\<forall>x<24. \<forall>y<24. getpixel img x y = 255"
  proof -
    have "\<forall>x<24. \<forall>j<3. group_byte img x j = 0x00"
    proof (intro allI impI)
      fix x j :: nat
      assume "x < 24" "j < 3"
      with px have "\<forall>i<8. getpixel img x (8 * j + i) = 255" by simp
      then show "group_byte img x j = 0x00" by (rule group_byte_white)
    qed
    then have "concat (map (\<lambda>x. map (group_byte img x) [0..<3]) [0..<24]) = replicate (24 * 3) 0x00"
      by (rule concat_uniform_const)
    then show ?thesis by (simp only: w) simp
  qed
  from p len bits black white show ?thesis by blast
qed

theorem pack_column_major_witness:
  "pack \<lparr>width = 24, height = 24, getpixel = (\<lambda>x y. 0)\<rparr> = Inr (replicate 72 0xFF) \<and>
   pack \<lparr>width = 24, height = 24, getpixel = (\<lambda>x y. 255)\<rparr> = Inr (replicate 72 0x00)"
proof -
  have "height \<lparr>width = 24, height = 24, getpixel = (\<lambda>x y. 0 :: nat)\<rparr> = 24" by simp
  from pack_column_major [OF this]
  have a: "pack \<lparr>width = 24, height = 24, getpixel = (\<lambda>x y. 0)\<rparr> = Inr (replicate 72 0xFF)"
    by auto
  have "height \<lparr>width = 24, height = 24, getpixel = (\<lambda>x y. 255 :: nat)\<rparr> = 24" by simp
  from pack_column_major [OF this]
  have b: "pack \<lparr>width = 24, height = 24, getpixel = (\<lambda>x y. 255)\<rparr> = Inr (replicate 72 0x00)"
    by auto
  from a b show ?thesis by simp
qed

section \<open>Registering glyphs\<close>

lemma pack_glyph_image:
  "pack (glyph_image ext aflg fnt sz g ax ay) = Inr (glyph_bytes ext aflg fnt sz g ax ay)"
proof -
  have "height (glyph_image ext aflg fnt sz g ax ay) = 8 * 3"
    by (simp add: glyph_image_def)
  then show ?thesis
    unfolding glyph_bytes_def Let_def by (rule pack_groups)
qed

lemma length_glyph_bytes:
  "length (glyph_bytes ext aflg fnt sz g ax ay) = (if aflg then 36 else 72)"
  by (simp add: glyph_bytes_def Let_def length_concat_uniform glyph_image_def del: upt_Suc)

lemma foldl_raw:
  "foldl (\<lambda>p byte. raw [byte] p) p bs = p\<lparr>sent := sent p @ map (\<lambda>x. [x]) bs\<rparr>"
  by (induction bs arbitrary: p) (simp_all add: raw_def)

lemma foldl_sent:
  "foldl (\<lambda>p byte. p\<lparr>sent := sent p @ [[byte]]\<rparr>) (p :: printer) bs = p\<lparr>sent := sent p @ map (\<lambda>x. [x]) bs\<rparr>"
  using foldl_raw [of p bs] by (simp add: raw_def)

lemma escpos_register_gaiji_kanji:
  "escpos_register_gaiji ext c2 g fnt sz ax ay False p =
     (Inr (), (get_font fnt sz ''unic'' p)
        \<lparr>drawn := drawn p @ [(g, fnt, sz, ax, ay)],
         sent := sent p @ (FS @ ascii ''2'' @ c1 p @ c2) # map (\<lambda>x. [x]) (glyph_bytes ext False fnt sz g ax ay)\<rparr>)"
proof -
  have img: "\<lparr>width = 24, height = 24, getpixel = render ext fnt sz g ax ay 24 24\<rparr> =
     glyph_image ext False fnt sz g ax ay"
    by (simp add: glyph_image_def)
  show ?thesis
    unfolding escpos_register_gaiji_def Let_def
    by (simp add: img pack_glyph_image foldl_sent raw_def get_font_def Let_def)
qed

lemma escpos_register_gaiji_ascii:
  "escpos_register_gaiji ext c2 g fnt sz ax ay True p =
     (Inr (), (get_font fnt sz ''unic'' p)
        \<lparr>drawn := drawn p @ [(g, fnt, sz, ax, ay)],
         sent := sent p @ (ESC @ ascii ''&'' @ [0x03] @ c2 @ c2) # [0x0c] # map (\<lambda>x. [x]) (glyph_bytes ext True fnt sz g ax ay)\<rparr>)"
proof -
  have img: "\<lparr>width = 12, height = 24, getpixel = render ext fnt sz g ax ay 12 24\<rparr> =
     glyph_image ext True fnt sz g ax ay"
    by (simp add: glyph_image_def)
  show ?thesis
    unfolding escpos_register_gaiji_def Let_def
    by (simp add: img pack_glyph_image foldl_sent raw_def get_font_def Let_def)
qed

lemma od_pop_append:
  "k \<notin> fst ` set xs \<Longrightarrow> od_pop k (xs @ (k, v) # ys) = Some (v, xs @ ys)"
  by (induction xs) auto

lemma od_set_append:
  "k \<notin> fst ` set xs \<Longrightarrow> od_set k v xs = xs @ [(k, v)]"
  by (induction xs) auto

lemma find_slot_None: "find_slot g pool = None \<longleftrightarrow> g \<notin> snd ` set pool"
  by (induction pool) (auto split: if_splits)

lemma find_slot_Some:
  "find_slot g pool = Some k \<Longrightarrow> \<exists>xs ys. pool = xs @ (k, g) # ys \<and> g \<notin> snd ` set xs"
proof (induction pool)
  case Nil
  then show ?case by simp
next
  case (Cons kv pool)
  obtain k' v' where kv: "kv = (k', v')" by (cases kv)
  show ?case
  proof (cases "v' = g")
    case True
    with Cons.prems kv have "kv # pool = [] @ (k, g) # pool" by simp
    then show ?thesis by (metis empty_iff image_empty list.set(1))
  next
    case False
    with Cons.prems kv have "find_slot g pool = Some k" by simp
    from Cons.IH [OF this] obtain xs ys where "pool = xs @ (k, g) # ys" "g \<notin> snd ` set xs" by blast
    with False kv have "kv # pool = (kv # xs) @ (k, g) # ys \<and> g \<notin> snd ` set (kv # xs)" by auto
    then show ?thesis by blast
  qed
qed

lemma find_slot_first:
  "g \<notin> snd ` set xs \<Longrightarrow> find_slot g (xs @ (k, g) # ys) = Some k"
  by (induction xs) auto

lemma define_gaiji_hit_kanji:
  assumes d: "distinct (map fst (gaiji_areas p))"
    and pool: "gaiji_areas p = xs @ (k, g) # ys"
    and nx: "g \<notin> snd ` set xs"
  shows "define_gaiji ext g fnt sz ax ay False p =
           (Inr (c1 p @ k), p\<lparr>gaiji_areas := xs @ ys @ [(k, g)]\<rparr>)"
proof -
  from d pool have kx: "k \<notin> fst ` set xs" and kxy: "k \<notin> fst ` set (xs @ ys)" by auto
  have f: "find_slot g (gaiji_areas p) = Some k"
    unfolding pool using nx by (rule find_slot_first)
  have po: "od_pop k (gaiji_areas p) = Some (g, xs @ ys)"
    unfolding pool using kx by (rule od_pop_append)
  have st: "od_set k g (xs @ ys) = (xs @ ys) @ [(k, g)]"
    using kxy by (rule od_set_append)
  show ?thesis
    unfolding define_gaiji_def by (simp add: f po st)
qed

lemma define_gaiji_hit_ascii:
  assumes d: "distinct (map fst (user_areas p))"
    and pool: "user_areas p = xs @ (k, g) # ys"
    and nx: "g \<notin> snd ` set xs"
  shows "define_gaiji ext g fnt sz ax ay True p =
           (Inl TypeError, p\<lparr>user_areas := xs @ ys @ [(k, g)]\<rparr>)"
proof -
  from d pool have kx: "k \<notin> fst ` set xs" and kxy: "k \<notin> fst ` set (xs @ ys)" by auto
  have f: "find_slot g (user_areas p) = Some k"
    unfolding pool using nx by (rule find_slot_first)
  have po: "od_pop k (user_areas p) = Some (g, xs @ ys)"
    unfolding pool using kx by (rule od_pop_append)
  have st: "od_set k g (xs @ ys) = (xs @ ys) @ [(k, g)]"
    using kxy by (rule od_set_append)
  show ?thesis
    unfolding define_gaiji_def by (simp add: f po st)
qed

lemma define_gaiji_miss_kanji:
  assumes d: "distinct (map fst (gaiji_areas p))"
    and pool: "gaiji_areas p = (k, v) # rest"
    and miss: "g \<notin> snd ` set (gaiji_areas p)"
  shows "define_gaiji ext g fnt sz ax ay False p =
           (Inr (c1 p @ k),
            (get_font fnt sz ''unic'' p)
              \<lparr>gaiji_areas := rest @ [(k, g)],
               drawn := drawn p @ [(g, fnt, sz, ax, ay)],
               sent := sent p @ (FS @ ascii ''2'' @ c1 p @ k) #
                         map (\<lambda>x. [x]) (glyph_bytes ext False fnt sz g ax ay)\<rparr>)"
proof -
  from d pool have kr: "k \<notin> fst ` set rest" by auto
  from miss pool have vg: "v \<noteq> g" and f: "find_slot g rest = None"
    by (auto simp: find_slot_None)
  have st: "od_set k g rest = rest @ [(k, g)]"
    using kr by (rule od_set_append)
  show ?thesis
    unfolding define_gaiji_def
    by (simp add: pool vg f st escpos_register_gaiji_kanji get_font_def Let_def)
qed

lemma define_gaiji_miss_ascii:
  assumes d: "distinct (map fst (user_areas p))"
    and pool: "user_areas p = (k, v) # rest"
    and miss: "g \<notin> snd ` set (user_areas p)"
  shows "define_gaiji ext g fnt sz ax ay True p =
           (Inr (ESC @ ascii ''%'' @ [0x01] @ k @ ESC @ ascii ''%'' @ [0x00]),
            (get_font fnt sz ''unic'' p)
              \<lparr>user_areas := rest @ [(k, g)],
               drawn := drawn p @ [(g, fnt, sz, ax, ay)],
               sent := sent p @ (ESC @ ascii ''&'' @ [0x03] @ k @ k) # [0x0c] #
                         map (\<lambda>x. [x]) (glyph_bytes ext True fnt sz g ax ay)\<rparr>)"
proof -
  from d pool have kr: "k \<notin> fst ` set rest" by auto
  from miss pool have vg: "v \<noteq> g" and f: "find_slot g rest = None"
    by (auto simp: find_slot_None)
  have st: "od_set k g rest = rest @ [(k, g)]"
    using kr by (rule od_set_append)
  show ?thesis
    unfolding define_gaiji_def
    by (simp add: pool vg f st escpos_register_gaiji_ascii get_font_def Let_def)
qed

lemma define_gaiji_empty_kanji:
  "gaiji_areas p = [] \<Longrightarrow> define_gaiji ext g fnt sz ax ay False p = (Inr [], p)"
  by (simp add: define_gaiji_def)

lemma define_gaiji_empty_ascii:
  "user_areas p = [] \<Longrightarrow> define_gaiji ext g fnt sz ax ay True p = (Inr [], p)"
  by (simp add: define_gaiji_def)

lemma pool_inv_hit:
  "pool_inv n (xs @ (k, g) # ys) \<Longrightarrow> pool_inv n (xs @ ys @ [(k, g)])"
  unfolding pool_inv_def by (simp split: if_splits)

lemma pool_inv_miss:
  "pool_inv n ((k, v) # rest) \<Longrightarrow> g \<notin> snd ` set ((k, v) # rest) \<Longrightarrow> pool_inv n (rest @ [(k, g)])"
  unfolding pool_inv_def by (simp split: if_splits)

lemma concat_singletons: "concat (map (\<lambda>x. [x]) xs) = xs"
  by (induction xs) simp_all

lemma length_glyph_bytes_kanji: "length (glyph_bytes ext False fnt sz g ax ay) = 72"
  by (simp add: length_glyph_bytes)

lemma glyph_image_kanji:
  "\<lparr>width = 24, height = 24, getpixel = render ext fnt sz g ax ay 24 24\<rparr> =
     glyph_image ext False fnt sz g ax ay"
  by (simp add: glyph_image_def)

section \<open>The slot pools keep their invariants\<close>

lemma length_USER_AREAS_ASCII: "length USER_AREAS_ASCII = 95"
  by (simp add: USER_AREAS_ASCII_def)

lemma length_USER_KANJI_AREAS_SJIS: "length USER_KANJI_AREAS_SJIS = 94"
  by (simp add: USER_KANJI_AREAS_SJIS_def)

lemma distinct_USER_AREAS_ASCII: "distinct USER_AREAS_ASCII"
proof -
  have "map (\<lambda>k. unat (hd k)) USER_AREAS_ASCII = [32..<127]"
    by (simp add: USER_AREAS_ASCII_def)
  then have "distinct (map (\<lambda>k. unat (hd k)) USER_AREAS_ASCII)"
    by (simp only: distinct_upt)
  then show ?thesis by (simp only: distinct_map)
qed

lemma distinct_USER_KANJI_AREAS_SJIS: "distinct USER_KANJI_AREAS_SJIS"
proof -
  have "map (\<lambda>k. unat (hd k)) USER_KANJI_AREAS_SJIS = [64..<127] @ [128..<159]"
    by (simp add: USER_KANJI_AREAS_SJIS_def)
  moreover have "distinct ([64..<127] @ [128..<159])"
    by (simp only: distinct_append distinct_upt set_upt) auto
  ultimately have "distinct (map (\<lambda>k. unat (hd k)) USER_KANJI_AREAS_SJIS)"
    by (simp only:)
  then show ?thesis by (simp only: distinct_map)
qed

lemma foldl_od_set:
  "distinct as \<Longrightarrow> set as \<inter> fst ` set d = {} \<Longrightarrow>
   foldl (\<lambda>d a. od_set a v d) d as = d @ map (\<lambda>a. (a, v)) as"
proof (induction as arbitrary: d)
  case Nil
  then show ?case by simp
next
  case (Cons a as)
  from Cons.prems have a: "a \<notin> fst ` set d" by auto
  then have s: "od_set a v d = d @ [(a, v)]" by (rule od_set_append)
  from Cons.prems have "distinct as" and "set as \<inter> fst ` set (d @ [(a, v)]) = {}" by auto
  from Cons.IH [OF this] show ?case by (simp add: s)
qed

lemma pool_inv_free:
  "distinct as \<Longrightarrow> pool_inv (length as) (map (\<lambda>a. (a, [])) as)"
  by (simp add: pool_inv_def comp_def)

lemma user_areas_init:
  "user_areas (init cfg t1 t2 t3 t4) = map (\<lambda>a. (a, [])) USER_AREAS_ASCII"
  using foldl_od_set [OF distinct_USER_AREAS_ASCII, of "[]" "[]"]
  by (simp add: init_def raw_def)

lemma gaiji_areas_init:
  "gaiji_areas (init cfg t1 t2 t3 t4) = map (\<lambda>a. (a, [])) USER_KANJI_AREAS_SJIS"
  using foldl_od_set [OF distinct_USER_KANJI_AREAS_SJIS, of "[]" "[]"]
  by (simp add: init_def raw_def)

lemma printer_inv_init: "printer_inv (init cfg t1 t2 t3 t4)"
  using pool_inv_free [OF distinct_USER_AREAS_ASCII] pool_inv_free [OF distinct_USER_KANJI_AREAS_SJIS]
  by (simp add: printer_inv_def user_areas_init gaiji_areas_init
        length_USER_AREAS_ASCII length_USER_KANJI_AREAS_SJIS)

lemma pools_get_font [simp]:
  "user_areas (get_font f s e p) = user_areas p"
  "gaiji_areas (get_font f s e p) = gaiji_areas p"
  by (simp_all add: get_font_def Let_def)

lemma pools_raw [simp]:
  "user_areas (raw m p) = user_areas p"
  "gaiji_areas (raw m p) = gaiji_areas p"
  by (simp_all add: raw_def)

lemma printer_inv_raw [simp]: "printer_inv (raw m p) = printer_inv p"
  by (simp add: printer_inv_def)

lemma define_gaiji_inv:
  assumes inv: "printer_inv p"
  shows "printer_inv (snd (define_gaiji ext g fnt sz ax ay aflg p))"
proof (cases aflg)
  case True
  from inv have pi: "pool_inv 95 (user_areas p)" and d: "distinct (map fst (user_areas p))"
    and other: "pool_inv 94 (gaiji_areas p)"
    by (simp_all add: printer_inv_def pool_inv_def)
  show ?thesis
  proof (cases "find_slot g (user_areas p)")
    case None
    then have miss: "g \<notin> snd ` set (user_areas p)" by (simp add: find_slot_None)
    from pi obtain k v rest where pool: "user_areas p = (k, v) # rest"
      by (cases "user_areas p") (auto simp: pool_inv_def)
    from pi miss have "pool_inv 95 (rest @ [(k, g)])"
      unfolding pool by (rule pool_inv_miss)
    with other show ?thesis
      by (simp add: True define_gaiji_miss_ascii [OF d pool miss] printer_inv_def)
  next
    case (Some k)
    from find_slot_Some [OF this] obtain xs ys
      where pool: "user_areas p = xs @ (k, g) # ys" and nx: "g \<notin> snd ` set xs" by blast
    from pi have "pool_inv 95 (xs @ ys @ [(k, g)])"
      unfolding pool by (rule pool_inv_hit)
    with other show ?thesis
      by (simp add: True define_gaiji_hit_ascii [OF d pool nx] printer_inv_def)
  qed
next
  case False
  from inv have pi: "pool_inv 94 (gaiji_areas p)" and d: "distinct (map fst (gaiji_areas p))"
    and other: "pool_inv 95 (user_areas p)"
    by (simp_all add: printer_inv_def pool_inv_def)
  show ?thesis
  proof (cases "find_slot g (gaiji_areas p)")
    case None
    then have miss: "g \<notin> snd ` set (gaiji_areas p)" by (simp add: find_slot_None)
    from pi obtain k v rest where pool: "gaiji_areas p = (k, v) # rest"
      by (cases "gaiji_areas p") (auto simp: pool_inv_def)
    from pi miss have "pool_inv 94 (rest @ [(k, g)])"
      unfolding pool by (rule pool_inv_miss)
    with other show ?thesis
      by (simp add: False define_gaiji_miss_kanji [OF d pool miss] printer_inv_def)
  next
    case (Some k)
    from find_slot_Some [OF this] obtain xs ys
      where pool: "gaiji_areas p = xs @ (k, g) # ys" and nx: "g \<notin> snd ` set xs" by blast
    from pi have "pool_inv 94 (xs @ ys @ [(k, g)])"
      unfolding pool by (rule pool_inv_hit)
    with other show ?thesis
      by (simp add: False define_gaiji_hit_kanji [OF d pool nx] printer_inv_def)
  qed
qed

lemma escpos_register_gaiji_inv:
  "printer_inv p \<Longrightarrow> printer_inv (snd (escpos_register_gaiji ext c2 g fnt sz ax ay aflg p))"
  by (cases aflg) (simp_all add: escpos_register_gaiji_kanji escpos_register_gaiji_ascii printer_inv_def)

lemma jptext2_char_inv:
  assumes "printer_inv p"
  shows "printer_inv (snd (jptext2_char ext c p))"
proof (cases "classify ext c p")
  case (Builtin bs)
  with assms show ?thesis by (simp add: jptext2_char_def)
next
  case (CallDefine ps)
  from define_gaiji_inv [OF assms, of ext "[c]" "font ps" "size' ps" "adjustX ps" "adjustY ps" "asciiflg ps"]
  show ?thesis
    by (auto simp: jptext2_char_def CallDefine split: prod.splits sum.splits)
qed

lemma jptext2_loop_inv:
  "printer_inv p \<Longrightarrow> printer_inv (snd (jptext2_loop ext cs p))"
proof (induction cs arbitrary: p)
  case Nil
  then show ?case by simp
next
  case (Cons c cs)
  from jptext2_char_inv [OF Cons.prems, of ext c]
  have "printer_inv (snd (jptext2_char ext c p))" .
  with Cons.IH show ?case
    by (auto split: prod.splits sum.splits)
qed

lemma set_modes_inv:
  "printer_inv p \<Longrightarrow> printer_inv (snd (set_modes n b' wb bf p))"
  by (simp add: set_modes_def split: sum.splits)

lemma clear_modes_inv:
  "printer_inv p \<Longrightarrow> printer_inv (clear_modes n wb bf p)"
  by (simp add: clear_modes_def Let_def)

lemma jptext2_inv:
  assumes "printer_inv p"
  shows "printer_inv (snd (jptext2 ext cs dw dh ul wb bf p))"
proof -
  obtain n b' where mb: "mode_bytes dw dh ul = (n, b')" by (cases "mode_bytes dw dh ul")
  from set_modes_inv [OF assms, of n b' wb bf]
  have s1: "printer_inv (snd (set_modes n b' wb bf p))" .
  from jptext2_loop_inv [OF s1, of ext cs]
  have s2: "printer_inv (snd (jptext2_loop ext cs (snd (set_modes n b' wb bf p))))" .
  from clear_modes_inv [OF s2, of n wb bf] s1 s2
  show ?thesis
    by (auto simp: jptext2_def mb split: prod.splits sum.splits)
qed

section \<open>The sample session\<close>

lemma gaiji_areas_p0: "gaiji_areas p0 = map (\<lambda>a. (a, [])) USER_KANJI_AREAS_SJIS"
  by (simp add: p0_def gaiji_areas_init)

lemma user_areas_p0: "user_areas p0 = map (\<lambda>a. (a, [])) USER_AREAS_ASCII"
  by (simp add: p0_def user_areas_init)

lemma c1_p0: "c1 p0 = [0xec]"
  by (simp add: p0_def init_def raw_def)

lemma sent_p0: "sent p0 = [[0x1b, 0x74, 0x01], [0x1c, 0x26], [0x1c, 0x43, 0x01]]"
  by (simp add: p0_def init_def raw_def ESC_def FS_def ascii_def)

lemma printer_inv_p0: "printer_inv p0"
  by (simp add: p0_def printer_inv_init)

lemma glyph_bytes_ext0: "glyph_bytes ext0 False fnt sz g ax ay = replicate 72 0x00"
proof -
  let ?img = "glyph_image ext0 False fnt sz g ax ay"
  have w: "width ?img = 24" by (simp add: glyph_image_def)
  have "\<forall>x<24. \<forall>j<3. group_byte ?img x j = 0x00"
    by (intro allI impI group_byte_white) (simp add: glyph_image_def ext0_def)
  then have "concat (map (\<lambda>x. map (group_byte ?img x) [0..<3]) [0..<24]) = replicate (24 * 3) 0x00"
    by (rule concat_uniform_const)
  then show ?thesis
    unfolding glyph_bytes_def Let_def w by simp
qed

lemma gaiji_areas_p0_Cons:
  "gaiji_areas p0 = ([0x40], []) # map (\<lambda>a. (a, [])) (tl USER_KANJI_AREAS_SJIS)"
  by (simp add: gaiji_areas_p0 USER_KANJI_AREAS_SJIS_def)

lemma user_areas_p0_Cons:
  "user_areas p0 = ([0x20], []) # map (\<lambda>a. (a, [])) (tl USER_AREAS_ASCII)"
  by (simp add: user_areas_p0 USER_AREAS_ASCII_def)

lemma free_p0:
  "g \<noteq> [] \<Longrightarrow> g \<notin> snd ` set (gaiji_areas p0)"
  "g \<noteq> [] \<Longrightarrow> g \<notin> snd ` set (user_areas p0)"
  by (auto simp: gaiji_areas_p0 user_areas_p0)

text \<open>
  C8. The constructor establishes the invariants of the two pools (95 and 94 slots,
  pairwise different slot codes, no character in two slots of a pool), and
  \<^verbatim>\<open>_escpos_register_gaiji\<close>, \<^verbatim>\<open>_define_gaiji\<close> and \<^verbatim>\<open>jptext2\<close> keep them, whatever
  their arguments and also when they end in an error.
\<close>

theorem slot_pool_invariants:
  "printer_inv (init cfg t0201 t0208 t0212 t0213) \<and>
   (printer_inv p \<longrightarrow>
      printer_inv (snd (escpos_register_gaiji ext c2 g fnt sz ax ay aflg p)) \<and>
      printer_inv (snd (define_gaiji ext g fnt sz ax ay aflg p)) \<and>
      printer_inv (snd (jptext2 ext cs dw dh ul wb bf p)))"
  by (simp add: printer_inv_init escpos_register_gaiji_inv define_gaiji_inv jptext2_inv)

theorem slot_pool_invariants_witness:
  "printer_inv p0 \<and>
   printer_inv (snd (escpos_register_gaiji ext0 [0x40] [0x4E02] ''NotoSansJP-Medium.otf'' 24 0 (- 8) False p0)) \<and>
   printer_inv (snd (define_gaiji ext0 [0x41] ''unifont_jp-16.0.03.otf'' 24 2 0 True p0)) \<and>
   printer_inv (snd (jptext2 ext0 [0x41, 0x1F44D, 0x3042, 0x1F44D] True False True False True p0))"
proof -
  have i: "printer_inv p0"
    using slot_pool_invariants [of cfg0 "[[0xA5], [0x203E]]" "[[0x3042]]" "[[0x4E02]]" "[[0x4FF1]]"]
    by (simp add: p0_def)
  with slot_pool_invariants [of cfg0 "[[0xA5], [0x203E]]" "[[0x3042]]" "[[0x4E02]]" "[[0x4FF1]]" p0]
  show ?thesis by (simp add: p0_def)
qed

section \<open>Cache hits and the order of the pool\<close>

lemma c1_get_font [simp]: "c1 (get_font f s e p) = c1 p"
  by (simp add: get_font_def Let_def)

lemma occupant_unique:
  assumes "distinct (filter (\<lambda>v. v \<noteq> []) (map snd (xs @ (k, g) # ys)))" and "g \<noteq> []"
  shows "g \<notin> snd ` set xs" and "g \<notin> snd ` set ys"
  using assms by (auto simp: image_iff)

lemma remove_slot:
  assumes "distinct (map fst (xs @ kv # ys))"
  shows "filter (\<lambda>x. x \<noteq> kv) (xs @ kv # ys) = xs @ ys"
proof -
  from assms have "kv \<notin> set xs" and "kv \<notin> set ys"
    by (auto simp: image_iff)
  then have "filter (\<lambda>x. x \<noteq> kv) xs = xs" and "filter (\<lambda>x. x \<noteq> kv) ys = ys"
    by (auto simp: filter_id_conv)
  then show ?thesis by simp
qed

text \<open>One access to the double-byte pool: the slot used comes from the part of the pool
  in front of any suffix that does not hold the character.\<close>

lemma access_step:
  assumes inv: "pool_inv n (gaiji_areas p)"
    and pool: "gaiji_areas p = xs @ ys"
    and ne: "xs \<noteq> []"
    and ny: "g \<notin> snd ` set ys"
  shows "\<exists>xs' k. define_gaiji ext g fnt sz ax ay False p =
             (Inr (c1 p @ k), snd (define_gaiji ext g fnt sz ax ay False p)) \<and>
           gaiji_areas (snd (define_gaiji ext g fnt sz ax ay False p)) = xs' @ ys @ [(k, g)] \<and>
           Suc (length xs') = length xs \<and> set xs' \<subseteq> set xs \<and>
           c1 (snd (define_gaiji ext g fnt sz ax ay False p)) = c1 p \<and>
           pool_inv n (gaiji_areas (snd (define_gaiji ext g fnt sz ax ay False p)))"
proof -
  from inv have d: "distinct (map fst (gaiji_areas p))" by (simp add: pool_inv_def)
  show ?thesis
  proof (cases "find_slot g (gaiji_areas p)")
    case None
    then have miss: "g \<notin> snd ` set (gaiji_areas p)" by (simp add: find_slot_None)
    from ne obtain k v xs' where xs: "xs = (k, v) # xs'" by (cases xs) auto
    with pool have pl: "gaiji_areas p = (k, v) # (xs' @ ys)" by simp
    from inv miss have "pool_inv n ((xs' @ ys) @ [(k, g)])"
      unfolding pl by (rule pool_inv_miss)
    with define_gaiji_miss_kanji [OF d pl miss, of ext fnt sz ax ay] xs
    show ?thesis by auto
  next
    case (Some k)
    from find_slot_Some [OF this] obtain us vs
      where dec: "gaiji_areas p = us @ (k, g) # vs" and nu: "g \<notin> snd ` set us" by blast
    from pool dec have "xs @ ys = us @ (k, g) # vs" by simp
    then obtain t where t: "xs @ t = us \<and> ys = t @ (k, g) # vs \<or> xs = us @ t \<and> t @ ys = (k, g) # vs"
      by (auto simp: append_eq_append_conv2)
    have "\<exists>ws. xs = us @ (k, g) # ws \<and> vs = ws @ ys"
      using t
    proof
      assume a: "xs @ t = us \<and> ys = t @ (k, g) # vs"
      then have "g \<in> snd ` set ys" by (auto simp: image_iff)
      with ny show ?thesis by simp
    next
      assume a: "xs = us @ t \<and> t @ ys = (k, g) # vs"
      show ?thesis
      proof (cases t)
        case Nil
        with a have "g \<in> snd ` set ys" by (auto simp: image_iff)
        with ny show ?thesis by simp
      next
        case (Cons kv ws)
        with a have "xs = us @ (k, g) # ws \<and> vs = ws @ ys" by simp
        then show ?thesis by blast
      qed
    qed
    then obtain ws where xs: "xs = us @ (k, g) # ws" and vs: "vs = ws @ ys" by blast
    from inv have "pool_inv n (us @ vs @ [(k, g)])"
      unfolding dec by (rule pool_inv_hit)
    with define_gaiji_hit_kanji [OF d dec nu, of ext fnt sz ax ay] xs vs
    show ?thesis by auto
  qed
qed



text \<open>
  The hit branch of the pool of user-defined kanji (lines 320 to 323 of the source). In
  this pool, registering a character that is resident returns
  the selection bytes of its slot and changes nothing but the order of the pool: the slot
  moves to the end (most recently used) with its code and occupant, nothing is drawn and
  nothing is sent. Registering a character twice in a row returns the same bytes both
  times, and the second call leaves the printer as it is. After the accesses a, b, c, a
  the three most recently used slots hold b, c, a in this order, so of the three b is the
  least recently used; the slots in front of them are untouched slots of the pool.
\<close>

theorem define_gaiji_cache_hit:
  assumes inv: "pool_inv n (gaiji_areas p)"
  shows "((k, g) \<in> set (gaiji_areas p) \<and> g \<noteq> [] \<longrightarrow>
            define_gaiji ext g fnt sz ax ay False p =
              (Inr (c1 p @ k),
               p\<lparr>gaiji_areas := filter (\<lambda>kv. kv \<noteq> (k, g)) (gaiji_areas p) @ [(k, g)]\<rparr>)) \<and>
         (0 < n \<and> g \<noteq> [] \<longrightarrow>
            (\<exists>k'. fst (define_gaiji ext g fnt sz ax ay False p) = Inr (c1 p @ k')) \<and>
            define_gaiji ext g fnt' sz' ax' ay' False (snd (define_gaiji ext g fnt sz ax ay False p)) =
              define_gaiji ext g fnt sz ax ay False p) \<and>
         (3 \<le> n \<and> a \<noteq> [] \<and> b \<noteq> [] \<and> c \<noteq> [] \<and> a \<noteq> b \<and> a \<noteq> c \<and> b \<noteq> c \<longrightarrow>
            (let p1 = snd (define_gaiji ext a fnt sz ax ay False p);
                 p2 = snd (define_gaiji ext b fnt sz ax ay False p1);
                 p3 = snd (define_gaiji ext c fnt sz ax ay False p2);
                 p4 = snd (define_gaiji ext a fnt sz ax ay False p3)
             in \<exists>front ka kb kc.
                  gaiji_areas p4 = front @ [(kb, b), (kc, c), (ka, a)] \<and>
                  set front \<subseteq> set (gaiji_areas p)))"
proof (intro conjI impI)
  assume res: "(k, g) \<in> set (gaiji_areas p) \<and> g \<noteq> []"
  then obtain xs ys where pool: "gaiji_areas p = xs @ (k, g) # ys"
    by (auto dest: split_list)
  from inv have d: "distinct (map fst (gaiji_areas p))"
    and u: "distinct (filter (\<lambda>v. v \<noteq> []) (map snd (gaiji_areas p)))"
    by (simp_all add: pool_inv_def)
  from u res have nx: "g \<notin> snd ` set xs"
    unfolding pool by (auto dest: occupant_unique)
  from d have "filter (\<lambda>kv. kv \<noteq> (k, g)) (gaiji_areas p) = xs @ ys"
    unfolding pool by (rule remove_slot)
  with define_gaiji_hit_kanji [OF d pool nx, of ext fnt sz ax ay]
  show "define_gaiji ext g fnt sz ax ay False p =
          (Inr (c1 p @ k), p\<lparr>gaiji_areas := filter (\<lambda>kv. kv \<noteq> (k, g)) (gaiji_areas p) @ [(k, g)]\<rparr>)"
    by simp
next
  assume h: "0 < n \<and> g \<noteq> []"
  let ?D = "define_gaiji ext g fnt sz ax ay False p"
  from inv h have ne: "gaiji_areas p \<noteq> []" by (auto simp: pool_inv_def)
  from access_step [OF inv _ ne, of "[]" g ext fnt sz ax ay]
  obtain xs' k' where D: "?D = (Inr (c1 p @ k'), snd ?D)"
    and pool1: "gaiji_areas (snd ?D) = xs' @ [(k', g)]"
    and c: "c1 (snd ?D) = c1 p"
    and inv1: "pool_inv n (gaiji_areas (snd ?D))"
    by auto
  from D show "\<exists>k'. fst ?D = Inr (c1 p @ k')" by (metis fst_conv)
  from inv1 have d1: "distinct (map fst (gaiji_areas (snd ?D)))"
    and u1: "distinct (filter (\<lambda>v. v \<noteq> []) (map snd (gaiji_areas (snd ?D))))"
    by (simp_all add: pool_inv_def)
  from u1 h have nx: "g \<notin> snd ` set xs'"
    unfolding pool1 by (auto dest: occupant_unique)
  have "define_gaiji ext g fnt' sz' ax' ay' False (snd ?D) =
          (Inr (c1 (snd ?D) @ k'), (snd ?D)\<lparr>gaiji_areas := xs' @ [] @ [(k', g)]\<rparr>)"
    by (rule define_gaiji_hit_kanji [OF d1 _ nx]) (simp add: pool1)
  also have "\<dots> = (Inr (c1 p @ k'), snd ?D)"
    using pool1 [symmetric] by (simp add: c)
  also have "\<dots> = ?D" by (rule D [symmetric])
  finally show "define_gaiji ext g fnt' sz' ax' ay' False (snd ?D) = ?D" .
next
  assume h: "3 \<le> n \<and> a \<noteq> [] \<and> b \<noteq> [] \<and> c \<noteq> [] \<and> a \<noteq> b \<and> a \<noteq> c \<and> b \<noteq> c"
  let ?p1 = "snd (define_gaiji ext a fnt sz ax ay False p)"
  let ?p2 = "snd (define_gaiji ext b fnt sz ax ay False ?p1)"
  let ?p3 = "snd (define_gaiji ext c fnt sz ax ay False ?p2)"
  let ?p4 = "snd (define_gaiji ext a fnt sz ax ay False ?p3)"
  from inv h have len: "3 \<le> length (gaiji_areas p)" by (simp add: pool_inv_def)
  then have ne: "gaiji_areas p \<noteq> []" by auto
  from access_step [OF inv _ ne, of "[]" a ext fnt sz ax ay]
  obtain xs1 ka where pool1: "gaiji_areas ?p1 = xs1 @ [(ka, a)]"
    and l1: "Suc (length xs1) = length (gaiji_areas p)"
    and s1: "set xs1 \<subseteq> set (gaiji_areas p)"
    and inv1: "pool_inv n (gaiji_areas ?p1)"
    by auto
  from l1 len have ne1: "xs1 \<noteq> []" by auto
  from h have "b \<notin> snd ` set [(ka, a)]" by auto
  from access_step [OF inv1 pool1 ne1 this, of ext fnt sz ax ay]
  obtain xs2 kb where pool2: "gaiji_areas ?p2 = xs2 @ [(ka, a), (kb, b)]"
    and l2: "Suc (length xs2) = length xs1"
    and s2: "set xs2 \<subseteq> set xs1"
    and inv2: "pool_inv n (gaiji_areas ?p2)"
    by auto
  from l1 l2 len have ne2: "xs2 \<noteq> []" by auto
  from h have "c \<notin> snd ` set [(ka, a), (kb, b)]" by auto
  from access_step [OF inv2 pool2 ne2 this, of ext fnt sz ax ay]
  obtain xs3 kc where pool3: "gaiji_areas ?p3 = xs3 @ [(ka, a), (kb, b), (kc, c)]"
    and s3: "set xs3 \<subseteq> set xs2"
    and inv3: "pool_inv n (gaiji_areas ?p3)"
    by auto
  from inv3 have d3: "distinct (map fst (gaiji_areas ?p3))"
    and u3: "distinct (filter (\<lambda>v. v \<noteq> []) (map snd (gaiji_areas ?p3)))"
    by (simp_all add: pool_inv_def)
  have pool3': "gaiji_areas ?p3 = xs3 @ (ka, a) # [(kb, b), (kc, c)]"
    by (simp add: pool3)
  from u3 h have nx: "a \<notin> snd ` set xs3"
    unfolding pool3' by (auto dest: occupant_unique)
  from define_gaiji_hit_kanji [OF d3 pool3' nx, of ext fnt sz ax ay]
  have "gaiji_areas ?p4 = xs3 @ [(kb, b), (kc, c), (ka, a)]" by simp
  moreover from s1 s2 s3 have "set xs3 \<subseteq> set (gaiji_areas p)" by blast
  ultimately show "let p1 = ?p1; p2 = snd (define_gaiji ext b fnt sz ax ay False p1);
        p3 = snd (define_gaiji ext c fnt sz ax ay False p2);
        p4 = snd (define_gaiji ext a fnt sz ax ay False p3)
     in \<exists>front ka kb kc. gaiji_areas p4 = front @ [(kb, b), (kc, c), (ka, a)] \<and>
          set front \<subseteq> set (gaiji_areas p)"
    unfolding Let_def by blast
qed

theorem define_gaiji_cache_hit_witness:
  "fst (define_gaiji ext0 [0x4E02] ''NotoSansJP-Medium.otf'' 24 0 (- 8) False
          (snd (define_gaiji ext0 [0x4E02] ''NotoSansJP-Medium.otf'' 24 0 (- 8) False p0))) =
     Inr [0xec, 0x40] \<and>
   define_gaiji ext0 [0x4E02] ''NotoSansJP-Medium.otf'' 24 0 (- 8) False
     (snd (define_gaiji ext0 [0x4E02] ''NotoSansJP-Medium.otf'' 24 0 (- 8) False p0)) =
     define_gaiji ext0 [0x4E02] ''NotoSansJP-Medium.otf'' 24 0 (- 8) False p0 \<and>
   (\<exists>front ka kb kc.
      gaiji_areas
        (snd (define_gaiji ext0 [0x4E02] ''NotoSansJP-Medium.otf'' 24 0 (- 8) False
          (snd (define_gaiji ext0 [0x9FA5] ''NotoSansJP-Medium.otf'' 24 0 (- 8) False
            (snd (define_gaiji ext0 [0x4F84] ''NotoSansJP-Medium.otf'' 24 0 (- 8) False
              (snd (define_gaiji ext0 [0x4E02] ''NotoSansJP-Medium.otf'' 24 0 (- 8) False p0)))))))) =
        front @ [(kb, [0x4F84]), (kc, [0x9FA5]), (ka, [0x4E02])] \<and>
      set front \<subseteq> set (gaiji_areas p0))"
proof -
  let ?K = "''NotoSansJP-Medium.otf''"
  let ?D = "define_gaiji ext0 [0x4E02] ?K 24 0 (- 8) False p0"
  from printer_inv_p0 have inv0: "pool_inv 94 (gaiji_areas p0)"
    by (simp add: printer_inv_def)
  from printer_inv_p0 have d: "distinct (map fst (gaiji_areas p0))"
    by (simp add: printer_inv_def pool_inv_def)
  have miss: "[0x4E02] \<notin> snd ` set (gaiji_areas p0)" by (rule free_p0) simp
  note D = define_gaiji_miss_kanji [OF d gaiji_areas_p0_Cons miss, of ext0 ?K 24 0 "- 8"]
  from D have res: "([0x40], [0x4E02]) \<in> set (gaiji_areas (snd ?D))" and c: "c1 (snd ?D) = [0xec]"
    by (simp_all add: c1_p0)
  from define_gaiji_inv [OF printer_inv_p0, of ext0 "[0x4E02]" ?K 24 0 "- 8" False]
  have inv1: "pool_inv 94 (gaiji_areas (snd ?D))"
    by (simp add: printer_inv_def)
  from define_gaiji_cache_hit [OF inv1, of "[0x40]" "[0x4E02]" ext0 ?K 24 0 "- 8"] res c
  have a: "fst (define_gaiji ext0 [0x4E02] ?K 24 0 (- 8) False (snd ?D)) = Inr [0xec, 0x40]"
    by simp
  from define_gaiji_cache_hit [OF inv0, of _ "[0x4E02]" ext0 ?K 24 0 "- 8" ?K 24 0 "- 8"]
  have b: "define_gaiji ext0 [0x4E02] ?K 24 0 (- 8) False (snd ?D) = ?D"
    by simp
  from define_gaiji_cache_hit [OF inv0, of _ _ ext0 ?K 24 0 "- 8" _ _ _ _ "[0x4E02]" "[0x4F84]" "[0x9FA5]"]
  have c: "\<exists>front ka kb kc.
      gaiji_areas
        (snd (define_gaiji ext0 [0x4E02] ?K 24 0 (- 8) False
          (snd (define_gaiji ext0 [0x9FA5] ?K 24 0 (- 8) False
            (snd (define_gaiji ext0 [0x4F84] ?K 24 0 (- 8) False (snd ?D))))))) =
        front @ [(kb, [0x4F84]), (kc, [0x9FA5]), (ka, [0x4E02])] \<and>
      set front \<subseteq> set (gaiji_areas p0)"
    by (simp add: Let_def)
  from a b c show ?thesis by blast
qed

section \<open>Eviction\<close>

lemma glyph_image_ascii:
  "\<lparr>width = 12, height = 24, getpixel = render ext fnt sz g ax ay 12 24\<rparr> =
     glyph_image ext True fnt sz g ax ay"
  by (simp add: glyph_image_def)

lemma length_glyph_bytes_ascii: "length (glyph_bytes ext True fnt sz g ax ay) = 36"
  by (simp add: length_glyph_bytes)

lemma glyph_bytes_ext0_ascii: "glyph_bytes ext0 True fnt sz g ax ay = replicate 36 0x00"
proof -
  let ?img = "glyph_image ext0 True fnt sz g ax ay"
  have w: "width ?img = 12" by (simp add: glyph_image_def)
  have "\<forall>x<12. \<forall>j<3. group_byte ?img x j = 0x00"
    by (intro allI impI group_byte_white) (simp add: glyph_image_def ext0_def)
  then have "concat (map (\<lambda>x. map (group_byte ?img x) [0..<3]) [0..<12]) = replicate (12 * 3) 0x00"
    by (rule concat_uniform_const)
  then show ?thesis
    unfolding glyph_bytes_def Let_def w by simp
qed

lemma evicts_lru_kanji:
  assumes inv: "pool_inv n (gaiji_areas p)"
    and pool: "gaiji_areas p = (k, v) # rest"
    and full: "[] \<notin> snd ` set (gaiji_areas p)"
    and new: "g \<notin> snd ` set (gaiji_areas p)"
  shows "\<exists>bs. pack \<lparr>width = 24, height = 24, getpixel = render ext fnt sz g ax ay 24 24\<rparr> = Inr bs \<and>
           length bs = 72 \<and>
           define_gaiji ext g fnt sz ax ay False p =
             (Inr (c1 p @ k),
              (get_font fnt sz ''unic'' p)
                \<lparr>gaiji_areas := rest @ [(k, g)],
                 drawn := drawn p @ [(g, fnt, sz, ax, ay)],
                 sent := sent p @ (FS @ ascii ''2'' @ c1 p @ k) # map (\<lambda>x. [x]) bs\<rparr>) \<and>
           v \<notin> snd ` set (rest @ [(k, g)]) \<and>
           (let p1 = snd (define_gaiji ext g fnt sz ax ay False p);
                r2 = define_gaiji ext v fnt' sz' ax' ay' False p1
            in find_slot v (gaiji_areas p1) = None \<and>
               (\<exists>k' bs'. pack \<lparr>width = 24, height = 24,
                                getpixel = render ext fnt' sz' v ax' ay' 24 24\<rparr> = Inr bs' \<and>
                   fst r2 = Inr (c1 p @ k') \<and>
                   drawn (snd r2) = drawn p1 @ [(v, fnt', sz', ax', ay')] \<and>
                   sent (snd r2) = sent p1 @ (FS @ ascii ''2'' @ c1 p @ k') # map (\<lambda>x. [x]) bs'))"
proof -
  let ?bs = "glyph_bytes ext False fnt sz g ax ay"
  let ?p1 = "(get_font fnt sz ''unic'' p)
                \<lparr>gaiji_areas := rest @ [(k, g)],
                 drawn := drawn p @ [(g, fnt, sz, ax, ay)],
                 sent := sent p @ (FS @ ascii ''2'' @ c1 p @ k) # map (\<lambda>x. [x]) ?bs\<rparr>"
  from inv have d: "distinct (map fst (gaiji_areas p))"
    and u: "distinct (filter (\<lambda>v. v \<noteq> []) (map snd (gaiji_areas p)))"
    by (simp_all add: pool_inv_def)
  have pk: "pack \<lparr>width = 24, height = 24, getpixel = render ext fnt sz g ax ay 24 24\<rparr> = Inr ?bs"
    by (simp only: glyph_image_kanji pack_glyph_image)
  have D: "define_gaiji ext g fnt sz ax ay False p = (Inr (c1 p @ k), ?p1)"
    by (rule define_gaiji_miss_kanji [OF d pool new])
  from full pool have vne: "v \<noteq> []" by auto
  from u vne have "v \<notin> snd ` set rest"
    using occupant_unique(2) [of "[]" k v rest] by (simp add: pool)
  moreover from new pool have "v \<noteq> g" by auto
  ultimately have ev: "v \<notin> snd ` set (rest @ [(k, g)])" by auto
  have pool1: "gaiji_areas ?p1 = rest @ [(k, g)]" by simp
  from inv new have "pool_inv n (rest @ [(k, g)])"
    unfolding pool by (rule pool_inv_miss)
  then have d1: "distinct (map fst (gaiji_areas ?p1))" by (simp add: pool_inv_def)
  obtain k' v' rest' where pool1': "gaiji_areas ?p1 = (k', v') # rest'"
    by (cases rest) auto
  from ev have miss1: "v \<notin> snd ` set (gaiji_areas ?p1)" by simp
  have pk': "pack \<lparr>width = 24, height = 24, getpixel = render ext fnt' sz' v ax' ay' 24 24\<rparr> =
               Inr (glyph_bytes ext False fnt' sz' v ax' ay')"
    by (simp only: glyph_image_kanji pack_glyph_image)
  have c: "c1 ?p1 = c1 p" by simp
  from define_gaiji_miss_kanji [OF d1 pool1' miss1, of ext fnt' sz' ax' ay']
  have r2: "fst (define_gaiji ext v fnt' sz' ax' ay' False ?p1) = Inr (c1 p @ k')"
    "drawn (snd (define_gaiji ext v fnt' sz' ax' ay' False ?p1)) = drawn ?p1 @ [(v, fnt', sz', ax', ay')]"
    "sent (snd (define_gaiji ext v fnt' sz' ax' ay' False ?p1)) =
       sent ?p1 @ (FS @ ascii ''2'' @ c1 p @ k') # map (\<lambda>x. [x]) (glyph_bytes ext False fnt' sz' v ax' ay')"
    by (simp_all only: fst_conv snd_conv c) simp_all
  from miss1 have f1: "find_slot v (gaiji_areas ?p1) = None"
    by (simp only: find_slot_None) simp
  have "let p1 = snd (define_gaiji ext g fnt sz ax ay False p);
            r2 = define_gaiji ext v fnt' sz' ax' ay' False p1
        in find_slot v (gaiji_areas p1) = None \<and>
           (\<exists>k' bs'. pack \<lparr>width = 24, height = 24,
                            getpixel = render ext fnt' sz' v ax' ay' 24 24\<rparr> = Inr bs' \<and>
               fst r2 = Inr (c1 p @ k') \<and>
               drawn (snd r2) = drawn p1 @ [(v, fnt', sz', ax', ay')] \<and>
               sent (snd r2) = sent p1 @ (FS @ ascii ''2'' @ c1 p @ k') # map (\<lambda>x. [x]) bs')"
    unfolding Let_def D snd_conv using f1 pk' r2 by blast
  with pk D ev show ?thesis
    using length_glyph_bytes_kanji [of ext fnt sz g ax ay] by blast
qed


lemma evicts_lru_ascii:
  assumes inv: "pool_inv n (user_areas p)"
    and pool: "user_areas p = (k, v) # rest"
    and full: "[] \<notin> snd ` set (user_areas p)"
    and new: "g \<notin> snd ` set (user_areas p)"
  shows "\<exists>bs. pack \<lparr>width = 12, height = 24, getpixel = render ext fnt sz g ax ay 12 24\<rparr> = Inr bs \<and>
           length bs = 36 \<and>
           define_gaiji ext g fnt sz ax ay True p =
             (Inr (ESC @ ascii ''%'' @ [0x01] @ k @ ESC @ ascii ''%'' @ [0x00]),
              (get_font fnt sz ''unic'' p)
                \<lparr>user_areas := rest @ [(k, g)],
                 drawn := drawn p @ [(g, fnt, sz, ax, ay)],
                 sent := sent p @ (ESC @ ascii ''&'' @ [0x03] @ k @ k) # [0x0c] # map (\<lambda>x. [x]) bs\<rparr>) \<and>
           v \<notin> snd ` set (rest @ [(k, g)]) \<and>
           (let p1 = snd (define_gaiji ext g fnt sz ax ay True p);
                r2 = define_gaiji ext v fnt' sz' ax' ay' True p1
            in find_slot v (user_areas p1) = None \<and>
               (\<exists>k' bs'. pack \<lparr>width = 12, height = 24,
                                getpixel = render ext fnt' sz' v ax' ay' 12 24\<rparr> = Inr bs' \<and>
                   fst r2 = Inr (ESC @ ascii ''%'' @ [0x01] @ k' @ ESC @ ascii ''%'' @ [0x00]) \<and>
                   drawn (snd r2) = drawn p1 @ [(v, fnt', sz', ax', ay')] \<and>
                   sent (snd r2) = sent p1 @ (ESC @ ascii ''&'' @ [0x03] @ k' @ k') # [0x0c] # map (\<lambda>x. [x]) bs'))"
proof -
  let ?bs = "glyph_bytes ext True fnt sz g ax ay"
  let ?p1 = "(get_font fnt sz ''unic'' p)
                \<lparr>user_areas := rest @ [(k, g)],
                 drawn := drawn p @ [(g, fnt, sz, ax, ay)],
                 sent := sent p @ (ESC @ ascii ''&'' @ [0x03] @ k @ k) # [0x0c] # map (\<lambda>x. [x]) ?bs\<rparr>"
  from inv have d: "distinct (map fst (user_areas p))"
    and u: "distinct (filter (\<lambda>v. v \<noteq> []) (map snd (user_areas p)))"
    by (simp_all add: pool_inv_def)
  have pk: "pack \<lparr>width = 12, height = 24, getpixel = render ext fnt sz g ax ay 12 24\<rparr> = Inr ?bs"
    by (simp only: glyph_image_ascii pack_glyph_image)
  have D: "define_gaiji ext g fnt sz ax ay True p = (Inr (ESC @ ascii ''%'' @ [0x01] @ k @ ESC @ ascii ''%'' @ [0x00]), ?p1)"
    by (rule define_gaiji_miss_ascii [OF d pool new])
  from full pool have vne: "v \<noteq> []" by auto
  from u vne have "v \<notin> snd ` set rest"
    using occupant_unique(2) [of "[]" k v rest] by (simp add: pool)
  moreover from new pool have "v \<noteq> g" by auto
  ultimately have ev: "v \<notin> snd ` set (rest @ [(k, g)])" by auto
  have pool1: "user_areas ?p1 = rest @ [(k, g)]" by simp
  from inv new have "pool_inv n (rest @ [(k, g)])"
    unfolding pool by (rule pool_inv_miss)
  then have d1: "distinct (map fst (user_areas ?p1))" by (simp add: pool_inv_def)
  obtain k' v' rest' where pool1': "user_areas ?p1 = (k', v') # rest'"
    by (cases rest) auto
  from ev have miss1: "v \<notin> snd ` set (user_areas ?p1)" by simp
  have pk': "pack \<lparr>width = 12, height = 24, getpixel = render ext fnt' sz' v ax' ay' 12 24\<rparr> =
               Inr (glyph_bytes ext True fnt' sz' v ax' ay')"
    by (simp only: glyph_image_ascii pack_glyph_image)
  have c: "c1 ?p1 = c1 p" by simp
  from define_gaiji_miss_ascii [OF d1 pool1' miss1, of ext fnt' sz' ax' ay']
  have r2: "fst (define_gaiji ext v fnt' sz' ax' ay' True ?p1) = Inr (ESC @ ascii ''%'' @ [0x01] @ k' @ ESC @ ascii ''%'' @ [0x00])"
    "drawn (snd (define_gaiji ext v fnt' sz' ax' ay' True ?p1)) = drawn ?p1 @ [(v, fnt', sz', ax', ay')]"
    "sent (snd (define_gaiji ext v fnt' sz' ax' ay' True ?p1)) =
       sent ?p1 @ (ESC @ ascii ''&'' @ [0x03] @ k' @ k') # [0x0c] # map (\<lambda>x. [x]) (glyph_bytes ext True fnt' sz' v ax' ay')"
    by (simp_all only: fst_conv snd_conv c) simp_all
  from miss1 have f1: "find_slot v (user_areas ?p1) = None"
    by (simp only: find_slot_None) simp
  have "let p1 = snd (define_gaiji ext g fnt sz ax ay True p);
            r2 = define_gaiji ext v fnt' sz' ax' ay' True p1
        in find_slot v (user_areas p1) = None \<and>
           (\<exists>k' bs'. pack \<lparr>width = 12, height = 24,
                            getpixel = render ext fnt' sz' v ax' ay' 12 24\<rparr> = Inr bs' \<and>
               fst r2 = Inr (ESC @ ascii ''%'' @ [0x01] @ k' @ ESC @ ascii ''%'' @ [0x00]) \<and>
               drawn (snd r2) = drawn p1 @ [(v, fnt', sz', ax', ay')] \<and>
               sent (snd r2) = sent p1 @ (ESC @ ascii ''&'' @ [0x03] @ k' @ k') # [0x0c] # map (\<lambda>x. [x]) bs')"
    unfolding Let_def D snd_conv using f1 pk' r2 by blast
  with pk D ev show ?thesis
    using length_glyph_bytes_ascii [of ext fnt sz g ax ay] by blast
qed


text \<open>
  C3. In either pool, when every slot is occupied, registering a character that is not
  resident takes the first slot of the dictionary, which is the least recently used one:
  its occupant is evicted and is the only one to go, the new character gets the slot, the
  slot moves to the end, the definition command and the packed bytes are sent and the
  selection bytes of the slot are returned. Registering the evicted character right
  afterwards finds it in no slot and defines it again. The pool of user-defined kanji
  sends \<^verbatim>\<open>FS 2\<close> with 72 bytes and returns the two-byte code; the download-character
  pool sends \<^verbatim>\<open>ESC &\<close> with 36 bytes and returns the slot byte between
  \<^verbatim>\<open>ESC % 1\<close> and \<^verbatim>\<open>ESC % 0\<close>.
\<close>

theorem define_gaiji_evicts_lru:
  "(pool_inv n (gaiji_areas p) \<and> gaiji_areas p = (k, v) # rest \<and>
    [] \<notin> snd ` set (gaiji_areas p) \<and> g \<notin> snd ` set (gaiji_areas p) \<longrightarrow>
      (\<exists>bs. pack \<lparr>width = 24, height = 24, getpixel = render ext fnt sz g ax ay 24 24\<rparr> = Inr bs \<and>
           length bs = 72 \<and>
           define_gaiji ext g fnt sz ax ay False p =
             (Inr (c1 p @ k),
              (get_font fnt sz ''unic'' p)
                \<lparr>gaiji_areas := rest @ [(k, g)],
                 drawn := drawn p @ [(g, fnt, sz, ax, ay)],
                 sent := sent p @ (FS @ ascii ''2'' @ c1 p @ k) # map (\<lambda>x. [x]) bs\<rparr>) \<and>
           v \<notin> snd ` set (rest @ [(k, g)]) \<and>
           (let p1 = snd (define_gaiji ext g fnt sz ax ay False p);
                r2 = define_gaiji ext v fnt' sz' ax' ay' False p1
            in find_slot v (gaiji_areas p1) = None \<and>
               (\<exists>k' bs'. pack \<lparr>width = 24, height = 24,
                                getpixel = render ext fnt' sz' v ax' ay' 24 24\<rparr> = Inr bs' \<and>
                   fst r2 = Inr (c1 p @ k') \<and>
                   drawn (snd r2) = drawn p1 @ [(v, fnt', sz', ax', ay')] \<and>
                   sent (snd r2) = sent p1 @ (FS @ ascii ''2'' @ c1 p @ k') # map (\<lambda>x. [x]) bs')))) \<and>
   (pool_inv n (user_areas p) \<and> user_areas p = (k, v) # rest \<and>
    [] \<notin> snd ` set (user_areas p) \<and> g \<notin> snd ` set (user_areas p) \<longrightarrow>
      (\<exists>bs. pack \<lparr>width = 12, height = 24, getpixel = render ext fnt sz g ax ay 12 24\<rparr> = Inr bs \<and>
           length bs = 36 \<and>
           define_gaiji ext g fnt sz ax ay True p =
             (Inr (ESC @ ascii ''%'' @ [0x01] @ k @ ESC @ ascii ''%'' @ [0x00]),
              (get_font fnt sz ''unic'' p)
                \<lparr>user_areas := rest @ [(k, g)],
                 drawn := drawn p @ [(g, fnt, sz, ax, ay)],
                 sent := sent p @ (ESC @ ascii ''&'' @ [0x03] @ k @ k) # [0x0c] # map (\<lambda>x. [x]) bs\<rparr>) \<and>
           v \<notin> snd ` set (rest @ [(k, g)]) \<and>
           (let p1 = snd (define_gaiji ext g fnt sz ax ay True p);
                r2 = define_gaiji ext v fnt' sz' ax' ay' True p1
            in find_slot v (user_areas p1) = None \<and>
               (\<exists>k' bs'. pack \<lparr>width = 12, height = 24,
                                getpixel = render ext fnt' sz' v ax' ay' 12 24\<rparr> = Inr bs' \<and>
                   fst r2 = Inr (ESC @ ascii ''%'' @ [0x01] @ k' @ ESC @ ascii ''%'' @ [0x00]) \<and>
                   drawn (snd r2) = drawn p1 @ [(v, fnt', sz', ax', ay')] \<and>
                   sent (snd r2) = sent p1 @ (ESC @ ascii ''&'' @ [0x03] @ k' @ k') # [0x0c] # map (\<lambda>x. [x]) bs'))))"
proof (intro conjI impI)
  assume "pool_inv n (gaiji_areas p) \<and> gaiji_areas p = (k, v) # rest \<and>
    [] \<notin> snd ` set (gaiji_areas p) \<and> g \<notin> snd ` set (gaiji_areas p)"
  then have "pool_inv n (gaiji_areas p)" and "gaiji_areas p = (k, v) # rest"
    and "[] \<notin> snd ` set (gaiji_areas p)" and "g \<notin> snd ` set (gaiji_areas p)"
    by blast+
  then show "\<exists>bs. pack \<lparr>width = 24, height = 24, getpixel = render ext fnt sz g ax ay 24 24\<rparr> = Inr bs \<and>
           length bs = 72 \<and>
           define_gaiji ext g fnt sz ax ay False p =
             (Inr (c1 p @ k),
              (get_font fnt sz ''unic'' p)
                \<lparr>gaiji_areas := rest @ [(k, g)],
                 drawn := drawn p @ [(g, fnt, sz, ax, ay)],
                 sent := sent p @ (FS @ ascii ''2'' @ c1 p @ k) # map (\<lambda>x. [x]) bs\<rparr>) \<and>
           v \<notin> snd ` set (rest @ [(k, g)]) \<and>
           (let p1 = snd (define_gaiji ext g fnt sz ax ay False p);
                r2 = define_gaiji ext v fnt' sz' ax' ay' False p1
            in find_slot v (gaiji_areas p1) = None \<and>
               (\<exists>k' bs'. pack \<lparr>width = 24, height = 24,
                                getpixel = render ext fnt' sz' v ax' ay' 24 24\<rparr> = Inr bs' \<and>
                   fst r2 = Inr (c1 p @ k') \<and>
                   drawn (snd r2) = drawn p1 @ [(v, fnt', sz', ax', ay')] \<and>
                   sent (snd r2) = sent p1 @ (FS @ ascii ''2'' @ c1 p @ k') # map (\<lambda>x. [x]) bs'))"
    by (rule evicts_lru_kanji)
next
  assume "pool_inv n (user_areas p) \<and> user_areas p = (k, v) # rest \<and>
    [] \<notin> snd ` set (user_areas p) \<and> g \<notin> snd ` set (user_areas p)"
  then have "pool_inv n (user_areas p)" and "user_areas p = (k, v) # rest"
    and "[] \<notin> snd ` set (user_areas p)" and "g \<notin> snd ` set (user_areas p)"
    by blast+
  then show "\<exists>bs. pack \<lparr>width = 12, height = 24, getpixel = render ext fnt sz g ax ay 12 24\<rparr> = Inr bs \<and>
           length bs = 36 \<and>
           define_gaiji ext g fnt sz ax ay True p =
             (Inr (ESC @ ascii ''%'' @ [0x01] @ k @ ESC @ ascii ''%'' @ [0x00]),
              (get_font fnt sz ''unic'' p)
                \<lparr>user_areas := rest @ [(k, g)],
                 drawn := drawn p @ [(g, fnt, sz, ax, ay)],
                 sent := sent p @ (ESC @ ascii ''&'' @ [0x03] @ k @ k) # [0x0c] # map (\<lambda>x. [x]) bs\<rparr>) \<and>
           v \<notin> snd ` set (rest @ [(k, g)]) \<and>
           (let p1 = snd (define_gaiji ext g fnt sz ax ay True p);
                r2 = define_gaiji ext v fnt' sz' ax' ay' True p1
            in find_slot v (user_areas p1) = None \<and>
               (\<exists>k' bs'. pack \<lparr>width = 12, height = 24,
                                getpixel = render ext fnt' sz' v ax' ay' 12 24\<rparr> = Inr bs' \<and>
                   fst r2 = Inr (ESC @ ascii ''%'' @ [0x01] @ k' @ ESC @ ascii ''%'' @ [0x00]) \<and>
                   drawn (snd r2) = drawn p1 @ [(v, fnt', sz', ax', ay')] \<and>
                   sent (snd r2) = sent p1 @ (ESC @ ascii ''&'' @ [0x03] @ k' @ k') # [0x0c] # map (\<lambda>x. [x]) bs'))"
    by (rule evicts_lru_ascii)
qed

theorem define_gaiji_evicts_lru_witness:
  "define_gaiji ext0 [0x1F44D] ''OpenMoji-black-glyf.ttf'' 20 0 0 False
     (p0\<lparr>gaiji_areas := [([0x40], [0x4E02]), ([0x41], [0x4FF1])]\<rparr>) =
     (Inr [0xec, 0x40],
      p0\<lparr>gaiji_areas := [([0x41], [0x4FF1]), ([0x40], [0x1F44D])],
         font_cache := [(''OpenMoji-black-glyf.ttf'', 20, ''unic'')],
         drawn := [([0x1F44D], ''OpenMoji-black-glyf.ttf'', 20, 0, 0)],
         sent := sent p0 @ [0x1c, 0x32, 0xec, 0x40] # replicate 72 [0x00]\<rparr>) \<and>
   find_slot [0x4E02]
     (gaiji_areas (snd (define_gaiji ext0 [0x1F44D] ''OpenMoji-black-glyf.ttf'' 20 0 0 False
        (p0\<lparr>gaiji_areas := [([0x40], [0x4E02]), ([0x41], [0x4FF1])]\<rparr>)))) = None \<and>
   define_gaiji ext0 [0x43] ''unifont_jp-16.0.03.otf'' 24 2 0 True
     (p0\<lparr>user_areas := [([0x20], [0x41]), ([0x21], [0x42])]\<rparr>) =
     (Inr [0x1b, 0x25, 0x01, 0x20, 0x1b, 0x25, 0x00],
      p0\<lparr>user_areas := [([0x21], [0x42]), ([0x20], [0x43])],
         font_cache := [(''unifont_jp-16.0.03.otf'', 24, ''unic'')],
         drawn := [([0x43], ''unifont_jp-16.0.03.otf'', 24, 2, 0)],
         sent := sent p0 @ [0x1b, 0x26, 0x03, 0x20, 0x20] # [0x0c] # replicate 36 [0x00]\<rparr>) \<and>
   find_slot [0x41]
     (user_areas (snd (define_gaiji ext0 [0x43] ''unifont_jp-16.0.03.otf'' 24 2 0 True
        (p0\<lparr>user_areas := [([0x20], [0x41]), ([0x21], [0x42])]\<rparr>)))) = None"
proof -
  let ?p = "p0\<lparr>gaiji_areas := [([0x40], [0x4E02]), ([0x41], [0x4FF1])]\<rparr>"
  let ?q = "p0\<lparr>user_areas := [([0x20], [0x41]), ([0x21], [0x42])]\<rparr>"
  have hp: "pool_inv 2 (gaiji_areas ?p) \<and> gaiji_areas ?p = ([0x40], [0x4E02]) # [([0x41], [0x4FF1])] \<and>
      [] \<notin> snd ` set (gaiji_areas ?p) \<and> [0x1F44D] \<notin> snd ` set (gaiji_areas ?p)"
    by (simp add: pool_inv_def)
  have hq: "pool_inv 2 (user_areas ?q) \<and> user_areas ?q = ([0x20], [0x41]) # [([0x21], [0x42])] \<and>
      [] \<notin> snd ` set (user_areas ?q) \<and> [0x43] \<notin> snd ` set (user_areas ?q)"
    by (simp add: pool_inv_def)
  have pk: "pack \<lparr>width = 24, height = 24,
      getpixel = render ext0 ''OpenMoji-black-glyf.ttf'' 20 [0x1F44D] 0 0 24 24\<rparr> = Inr (replicate 72 0)"
    by (simp only: glyph_image_kanji pack_glyph_image glyph_bytes_ext0)
  have pq: "pack \<lparr>width = 12, height = 24,
      getpixel = render ext0 ''unifont_jp-16.0.03.otf'' 24 [0x43] 2 0 12 24\<rparr> = Inr (replicate 36 0)"
    by (simp only: glyph_image_ascii pack_glyph_image glyph_bytes_ext0_ascii)
  have fc: "font_cache p0 = []" "drawn p0 = []" by (simp_all add: p0_def init_def raw_def)
  from define_gaiji_evicts_lru [where n = 2 and p = ?p and k = "[0x40]" and v = "[0x4E02]"
      and rest = "[([0x41], [0x4FF1])]" and g = "[0x1F44D]" and ext = ext0
      and fnt = "''OpenMoji-black-glyf.ttf''" and sz = 20 and ax = 0 and ay = 0] hp
  have a: "define_gaiji ext0 [0x1F44D] ''OpenMoji-black-glyf.ttf'' 20 0 0 False ?p =
     (Inr [0xec, 0x40],
      p0\<lparr>gaiji_areas := [([0x41], [0x4FF1]), ([0x40], [0x1F44D])],
         font_cache := [(''OpenMoji-black-glyf.ttf'', 20, ''unic'')],
         drawn := [([0x1F44D], ''OpenMoji-black-glyf.ttf'', 20, 0, 0)],
         sent := sent p0 @ [0x1c, 0x32, 0xec, 0x40] # replicate 72 [0x00]\<rparr>) \<and>
     find_slot [0x4E02]
       (gaiji_areas (snd (define_gaiji ext0 [0x1F44D] ''OpenMoji-black-glyf.ttf'' 20 0 0 False ?p))) = None"
    by (simp add: pk c1_p0 get_font_def fc FS_def ascii_def Let_def map_replicate)
  from define_gaiji_evicts_lru [where n = 2 and p = ?q and k = "[0x20]" and v = "[0x41]"
      and rest = "[([0x21], [0x42])]" and g = "[0x43]" and ext = ext0
      and fnt = "''unifont_jp-16.0.03.otf''" and sz = 24 and ax = 2 and ay = 0] hq
  have b: "define_gaiji ext0 [0x43] ''unifont_jp-16.0.03.otf'' 24 2 0 True ?q =
     (Inr [0x1b, 0x25, 0x01, 0x20, 0x1b, 0x25, 0x00],
      p0\<lparr>user_areas := [([0x21], [0x42]), ([0x20], [0x43])],
         font_cache := [(''unifont_jp-16.0.03.otf'', 24, ''unic'')],
         drawn := [([0x43], ''unifont_jp-16.0.03.otf'', 24, 2, 0)],
         sent := sent p0 @ [0x1b, 0x26, 0x03, 0x20, 0x20] # [0x0c] # replicate 36 [0x00]\<rparr>) \<and>
     find_slot [0x41]
       (user_areas (snd (define_gaiji ext0 [0x43] ''unifont_jp-16.0.03.otf'' 24 2 0 True ?q))) = None"
    by (simp add: pq get_font_def fc ESC_def ascii_def Let_def map_replicate)
  from a b show ?thesis by simp
qed

section \<open>The definition command\<close>

text \<open>
  C5. The definition of a user-defined kanji sends \<^verbatim>\<open>FS 2\<close>, the first byte of the
  character code, the slot byte once, and then the 72 packed bytes of the 24 by 24 glyph,
  each as a message of its own.
\<close>

theorem escpos_register_gaiji_kanji_command:
  "\<exists>bs. pack \<lparr>width = 24, height = 24, getpixel = render ext fnt sz g ax ay 24 24\<rparr> = Inr bs \<and>
         length bs = 72 \<and>
         fst (escpos_register_gaiji ext c2 g fnt sz ax ay False p) = Inr () \<and>
         sent (snd (escpos_register_gaiji ext c2 g fnt sz ax ay False p)) =
           sent p @ (FS @ ascii ''2'' @ c1 p @ c2) # map (\<lambda>x. [x]) bs \<and>
         concat (drop (length (sent p)) (sent (snd (escpos_register_gaiji ext c2 g fnt sz ax ay False p)))) =
           FS @ ascii ''2'' @ c1 p @ c2 @ bs"
proof -
  let ?bs = "glyph_bytes ext False fnt sz g ax ay"
  have pk: "pack \<lparr>width = 24, height = 24, getpixel = render ext fnt sz g ax ay 24 24\<rparr> = Inr ?bs"
    by (simp only: glyph_image_kanji pack_glyph_image)
  have cc: "concat (map (\<lambda>x. [x]) ?bs) = ?bs"
    by (rule concat_singletons)
  have "fst (escpos_register_gaiji ext c2 g fnt sz ax ay False p) = Inr ()"
    and "sent (snd (escpos_register_gaiji ext c2 g fnt sz ax ay False p)) =
           sent p @ (FS @ ascii ''2'' @ c1 p @ c2) # map (\<lambda>x. [x]) ?bs"
    and "concat (drop (length (sent p)) (sent (snd (escpos_register_gaiji ext c2 g fnt sz ax ay False p)))) =
           FS @ ascii ''2'' @ c1 p @ c2 @ ?bs"
    by (simp_all add: escpos_register_gaiji_kanji cc)
  with pk length_glyph_bytes_kanji [of ext fnt sz g ax ay] show ?thesis by blast
qed

theorem escpos_register_gaiji_slot_byte_once:
  "concat (drop 3 (sent (snd (escpos_register_gaiji ext0 [0x40] [0x4E02] ''NotoSansJP-Medium.otf'' 24 0 (- 8) False p0)))) =
     [0x1c, 0x32, 0xec, 0x40] @ replicate 72 0x00 \<and>
   concat (drop 3 (sent (snd (escpos_register_gaiji ext0 [0x40] [0x4E02] ''NotoSansJP-Medium.otf'' 24 0 (- 8) False p0)))) \<noteq>
     [0x1c, 0x32, 0xec, 0x40, 0x40] @ replicate 72 0x00"
proof -
  have cc: "concat (map (\<lambda>x. [x]) (replicate 72 (0 :: byte))) = replicate 72 0"
    by (rule concat_singletons)
  have e: "concat (drop 3 (sent (snd (escpos_register_gaiji ext0 [0x40] [0x4E02] ''NotoSansJP-Medium.otf'' 24 0 (- 8) False p0)))) =
     [0x1c, 0x32, 0xec, 0x40] @ replicate 72 0x00"
    by (simp add: escpos_register_gaiji_kanji glyph_bytes_ext0 sent_p0 c1_p0 cc FS_def ascii_def)
  have "length ([0x1c, 0x32, 0xec, 0x40] @ replicate 72 (0x00 :: byte)) \<noteq>
        length ([0x1c, 0x32, 0xec, 0x40, 0x40] @ replicate 72 (0x00 :: byte))"
    by simp
  then have "[0x1c, 0x32, 0xec, 0x40] @ replicate 72 (0x00 :: byte) \<noteq>
             [0x1c, 0x32, 0xec, 0x40, 0x40] @ replicate 72 0x00"
    by (metis (no_types))
  with e show ?thesis by (simp only:) simp
qed

section \<open>The download-character pool\<close>

lemma define_gaiji_ascii_hit_error:
  assumes "find_slot g (user_areas p) = Some k"
  shows "fst (define_gaiji ext g fnt sz ax ay True p) = Inl TypeError"
proof -
  have "od_pop k d \<noteq> None" if "find_slot g d = Some k" for d :: "(bytes, ustr) odict"
    using that by (induction d) (auto split: if_splits option.splits)
  with assms obtain v d where "od_pop k (user_areas p) = Some (v, d)" by fastforce
  with assms show ?thesis by (simp add: define_gaiji_def)
qed

text \<open>
  C6. The first registration of a character in the download-character pool returns
  \<^verbatim>\<open>ESC % 1\<close>, the slot byte and \<^verbatim>\<open>ESC % 0\<close>; registering the same character again
  finds it resident and ends in the TypeError of the hit branch.
\<close>

theorem define_gaiji_ascii_hit_raises:
  "fst (define_gaiji ext0 [0x41] ''unifont_jp-16.0.03.otf'' 24 2 0 True p0) =
     Inr [0x1b, 0x25, 0x01, 0x20, 0x1b, 0x25, 0x00] \<and>
   fst (define_gaiji ext0 [0x41] ''unifont_jp-16.0.03.otf'' 24 2 0 True
          (snd (define_gaiji ext0 [0x41] ''unifont_jp-16.0.03.otf'' 24 2 0 True p0))) =
     Inl TypeError"
proof -
  let ?D = "define_gaiji ext0 [0x41] ''unifont_jp-16.0.03.otf'' 24 2 0 True p0"
  from printer_inv_p0 have d: "distinct (map fst (user_areas p0))"
    by (simp add: printer_inv_def pool_inv_def)
  have miss: "[0x41] \<notin> snd ` set (user_areas p0)" by (rule free_p0) simp
  note D = define_gaiji_miss_ascii [OF d user_areas_p0_Cons miss, of ext0 "''unifont_jp-16.0.03.otf''" 24 2 0]
  from D have r: "fst ?D = Inr [0x1b, 0x25, 0x01, 0x20, 0x1b, 0x25, 0x00]"
    by (simp add: ESC_def ascii_def)
  from D have pool: "user_areas (snd ?D) = map (\<lambda>a. (a, [])) (tl USER_AREAS_ASCII) @ [([0x20], [0x41])]"
    by simp
  have "find_slot [0x41] (user_areas (snd ?D)) = Some [0x20]"
    unfolding pool by (rule find_slot_first) auto
  then have "fst (define_gaiji ext0 [0x41] ''unifont_jp-16.0.03.otf'' 24 2 0 True (snd ?D)) = Inl TypeError"
    by (rule define_gaiji_ascii_hit_error)
  with r show ?thesis by simp
qed

section \<open>Empty pools\<close>

text \<open>
  C9. With an empty pool \<^verbatim>\<open>_define_gaiji\<close> raises nothing: it returns the empty byte
  string and leaves the printer as it is, so nothing is drawn and nothing is sent.
\<close>

theorem define_gaiji_empty_pool:
  "(gaiji_areas p = [] \<longrightarrow> define_gaiji ext g fnt sz ax ay False p = (Inr [], p)) \<and>
   (user_areas p = [] \<longrightarrow> define_gaiji ext g fnt sz ax ay True p = (Inr [], p))"
  by (simp add: define_gaiji_empty_kanji define_gaiji_empty_ascii)

theorem define_gaiji_empty_pool_witness:
  "define_gaiji ext0 [0x1F44D] ''OpenMoji-black-glyf.ttf'' 20 0 0 False (p0\<lparr>user_areas := [], gaiji_areas := []\<rparr>) =
     (Inr [], p0\<lparr>user_areas := [], gaiji_areas := []\<rparr>) \<and>
   define_gaiji ext0 [0x1F44D] ''OpenMoji-black-glyf.ttf'' 20 0 0 True (p0\<lparr>user_areas := [], gaiji_areas := []\<rparr>) =
     (Inr [], p0\<lparr>user_areas := [], gaiji_areas := []\<rparr>)"
  using define_gaiji_empty_pool [of "p0\<lparr>user_areas := [], gaiji_areas := []\<rparr>" ext0 "[0x1F44D]"
      "''OpenMoji-black-glyf.ttf''" 20 0 0]
  by simp

theorem define_gaiji_empty_pool_silent:
  "fst (define_gaiji ext0 [0x4E02] ''NotoSansJP-Medium.otf'' 24 0 (- 8) False (p0\<lparr>gaiji_areas := []\<rparr>)) = Inr [] \<and>
   sent (snd (define_gaiji ext0 [0x4E02] ''NotoSansJP-Medium.otf'' 24 0 (- 8) False (p0\<lparr>gaiji_areas := []\<rparr>))) = sent p0"
  by (simp add: define_gaiji_def)

section \<open>Cache hits in the download-character pool\<close>

lemma tl_USER_AREAS_ASCII:
  "map (\<lambda>a. (a, [])) (tl USER_AREAS_ASCII) =
     ([0x21], []) # map (\<lambda>a. (a, [] :: ustr)) (tl (tl USER_AREAS_ASCII))"
  by (simp add: USER_AREAS_ASCII_def)

text \<open>
  C2. In the download-character pool the registration of a resident character moves its
  slot to the end with its code and occupant and draws and sends nothing, but it returns
  no selection bytes: it ends in the TypeError of the hit branch. Here the characters
  A and B are registered and A is registered again; the first registration of A had
  returned the selection bytes of slot 0x20.
\<close>

theorem define_gaiji_cache_hit_ascii_raises:
  "fst (define_gaiji ext0 [0x41] ''unifont_jp-16.0.03.otf'' 24 2 0 True p0) =
     Inr [0x1b, 0x25, 0x01, 0x20, 0x1b, 0x25, 0x00] \<and>
   define_gaiji ext0 [0x41] ''unifont_jp-16.0.03.otf'' 24 2 0 True
     (snd (define_gaiji ext0 [0x42] ''unifont_jp-16.0.03.otf'' 24 2 0 True
       (snd (define_gaiji ext0 [0x41] ''unifont_jp-16.0.03.otf'' 24 2 0 True p0)))) =
     (Inl TypeError,
      (snd (define_gaiji ext0 [0x42] ''unifont_jp-16.0.03.otf'' 24 2 0 True
         (snd (define_gaiji ext0 [0x41] ''unifont_jp-16.0.03.otf'' 24 2 0 True p0))))
        \<lparr>user_areas := map (\<lambda>a. (a, [])) (tl (tl USER_AREAS_ASCII)) @
                         [([0x21], [0x42]), ([0x20], [0x41])]\<rparr>) \<and>
   user_areas (snd (define_gaiji ext0 [0x42] ''unifont_jp-16.0.03.otf'' 24 2 0 True
       (snd (define_gaiji ext0 [0x41] ''unifont_jp-16.0.03.otf'' 24 2 0 True p0)))) =
     map (\<lambda>a. (a, [])) (tl (tl USER_AREAS_ASCII)) @ [([0x20], [0x41]), ([0x21], [0x42])]"
proof -
  let ?F = "''unifont_jp-16.0.03.otf''"
  let ?D1 = "define_gaiji ext0 [0x41] ?F 24 2 0 True p0"
  let ?D2 = "define_gaiji ext0 [0x42] ?F 24 2 0 True (snd ?D1)"
  let ?R = "map (\<lambda>a. (a, [] :: ustr)) (tl (tl USER_AREAS_ASCII))"
  from printer_inv_p0 have d0: "distinct (map fst (user_areas p0))"
    by (simp add: printer_inv_def pool_inv_def)
  have m0: "[0x41] \<notin> snd ` set (user_areas p0)" by (rule free_p0) simp
  note D1 = define_gaiji_miss_ascii [OF d0 user_areas_p0_Cons m0, of ext0 ?F 24 2 0]
  from D1 have r1: "fst ?D1 = Inr [0x1b, 0x25, 0x01, 0x20, 0x1b, 0x25, 0x00]"
    by (simp add: ESC_def ascii_def)
  from D1 have pool1: "user_areas (snd ?D1) = ([0x21], []) # (?R @ [([0x20], [0x41])])"
    by (simp add: tl_USER_AREAS_ASCII)
  from define_gaiji_inv [OF printer_inv_p0, of ext0 "[0x41]" ?F 24 2 0 True]
  have d1: "distinct (map fst (user_areas (snd ?D1)))"
    by (simp add: printer_inv_def pool_inv_def)
  have m1: "[0x42] \<notin> snd ` set (user_areas (snd ?D1))"
    unfolding pool1 by auto
  note D2 = define_gaiji_miss_ascii [OF d1 pool1 m1, of ext0 ?F 24 2 0]
  from D2 have pool2: "user_areas (snd ?D2) = ?R @ ([0x20], [0x41]) # [([0x21], [0x42])]"
    by simp
  from define_gaiji_inv [OF define_gaiji_inv [OF printer_inv_p0], of ext0 "[0x42]" ?F 24 2 0 True
      ext0 "[0x41]" ?F 24 2 0 True]
  have d2: "distinct (map fst (user_areas (snd ?D2)))"
    by (simp add: printer_inv_def pool_inv_def)
  have nx: "[0x41] \<notin> snd ` set ?R" by auto
  from define_gaiji_hit_ascii [OF d2 pool2 nx, of ext0 ?F 24 2 0]
  have r3: "define_gaiji ext0 [0x41] ?F 24 2 0 True (snd ?D2) =
      (Inl TypeError, (snd ?D2)\<lparr>user_areas := ?R @ [([0x21], [0x42]), ([0x20], [0x41])]\<rparr>)"
    by simp
  from r1 r3 pool2 show ?thesis by simp
qed

section \<open>Printing text\<close>

lemma frameD:
  assumes "frame f"
  shows "f (p\<lparr>sent := ms\<rparr>) = (fst (f p), (snd (f p))\<lparr>sent := ms @ emitted p (snd (f p))\<rparr>)"
    and "sent (snd (f p)) = sent p @ emitted p (snd (f p))"
proof -
  from assms show a: "f (p\<lparr>sent := ms\<rparr>) = (fst (f p), (snd (f p))\<lparr>sent := ms @ emitted p (snd (f p))\<rparr>)" for ms
    by (simp add: frame_def)
  from a [of "sent p"] have "f p = (fst (f p), (snd (f p))\<lparr>sent := sent p @ emitted p (snd (f p))\<rparr>)"
    by simp
  then have "snd (f p) = snd (fst (f p), (snd (f p))\<lparr>sent := sent p @ emitted p (snd (f p))\<rparr>)"
    by (rule arg_cong)
  then have "snd (f p) = (snd (f p))\<lparr>sent := sent p @ emitted p (snd (f p))\<rparr>"
    by (simp only: snd_conv)
  then have "sent (snd (f p)) = sent ((snd (f p))\<lparr>sent := sent p @ emitted p (snd (f p))\<rparr>)"
    by (rule arg_cong)
  then show "sent (snd (f p)) = sent p @ emitted p (snd (f p))" by simp
qed

lemma od_pop_find_slot:
  "find_slot g d = Some k \<Longrightarrow> od_pop k d \<noteq> None"
  by (induction d) (auto split: if_splits option.splits)

lemma frame_define_gaiji: "frame (define_gaiji ext g fnt sz ax ay aflg)"
  unfolding frame_def
  by (auto simp: define_gaiji_def emitted_def escpos_register_gaiji_kanji escpos_register_gaiji_ascii
        get_font_def Let_def split: option.split list.split prod.split)

lemma frame_seq:
  assumes f: "frame f" and g: "frame g"
  shows "frame (\<lambda>p. case f p of (Inl e, p') \<Rightarrow> (Inl e, p') | (Inr x, p') \<Rightarrow> g p')"
  unfolding frame_def
proof (intro allI)
  fix p :: printer and ms
  obtain r p' where fp: "f p = (r, p')" by (cases "f p")
  from frameD(1) [OF f, where p = p] fp
  have fm: "f (p\<lparr>sent := ms\<rparr>) = (r, p'\<lparr>sent := ms @ emitted p p'\<rparr>)" for ms
    by simp
  from frameD(2) [OF f, where p = p] fp
  have sp: "sent p' = sent p @ emitted p p'"
    by simp
  show "(case f (p\<lparr>sent := ms\<rparr>) of (Inl e, p') \<Rightarrow> (Inl e, p') | (Inr x, p') \<Rightarrow> g p') =
        (fst (case f p of (Inl e, p') \<Rightarrow> (Inl e, p') | (Inr x, p') \<Rightarrow> g p'),
         (snd (case f p of (Inl e, p') \<Rightarrow> (Inl e, p') | (Inr x, p') \<Rightarrow> g p'))
           \<lparr>sent := ms @ emitted p (snd (case f p of (Inl e, p') \<Rightarrow> (Inl e, p') | (Inr x, p') \<Rightarrow> g p'))\<rparr>)"
  proof (cases r)
    case (Inl e)
    then show ?thesis by (simp add: fm fp)
  next
    case (Inr x)
    have gm: "g (p'\<lparr>sent := ms'\<rparr>) = (fst (g p'), (snd (g p'))\<lparr>sent := ms' @ emitted p' (snd (g p'))\<rparr>)" for ms'
      by (rule frameD(1) [OF g])
    have sg: "sent (snd (g p')) = sent p' @ emitted p' (snd (g p'))"
      by (rule frameD(2) [OF g])
    have "emitted p (snd (g p')) = drop (length (sent p)) (sent p @ emitted p p' @ emitted p' (snd (g p')))"
      unfolding emitted_def [of p "snd (g p')"] by (subst sg, subst sp) simp
    then have e: "emitted p (snd (g p')) = emitted p p' @ emitted p' (snd (g p'))" by simp
    show ?thesis by (simp add: fm fp Inr gm e)
  qed
qed

lemma frame_raw_result:
  "frame (\<lambda>p. case f p of (Inl e, p') \<Rightarrow> (Inl e, p') | (Inr binary_str, p') \<Rightarrow> (Inr (), raw binary_str p'))"
  if "frame f" for f :: "printer \<Rightarrow> (error + bytes) \<times> printer"
  unfolding frame_def
proof (intro allI)
  fix p :: printer and ms
  obtain r p' where fp: "f p = (r, p')" by (cases "f p")
  from frameD(1) [OF that, where p = p] fp
  have fm: "f (p\<lparr>sent := ms\<rparr>) = (r, p'\<lparr>sent := ms @ emitted p p'\<rparr>)" for ms
    by simp
  from frameD(2) [OF that, where p = p] fp
  have sp: "sent p' = sent p @ emitted p p'"
    by simp
  have "length (sent p') = length (sent p) + length (emitted p p')"
    by (subst sp) simp
  then have le: "length (sent p) \<le> length (sent p')" by simp
  have e: "emitted p (raw m p') = emitted p p' @ [m]" for m
    using le by (simp add: emitted_def raw_def)
  show "(case f (p\<lparr>sent := ms\<rparr>) of (Inl e, p') \<Rightarrow> (Inl e, p') | (Inr binary_str, p') \<Rightarrow> (Inr (), raw binary_str p')) =
        (fst (case f p of (Inl e, p') \<Rightarrow> (Inl e, p') | (Inr binary_str, p') \<Rightarrow> (Inr (), raw binary_str p')),
         (snd (case f p of (Inl e, p') \<Rightarrow> (Inl e, p') | (Inr binary_str, p') \<Rightarrow> (Inr (), raw binary_str p')))
           \<lparr>sent := ms @ emitted p (snd (case f p of (Inl e, p') \<Rightarrow> (Inl e, p') | (Inr binary_str, p') \<Rightarrow> (Inr (), raw binary_str p')))\<rparr>)"
    by (cases r) (simp_all add: fm fp e, simp add: raw_def)
qed

lemma classify_sent [simp]: "classify ext c (p\<lparr>sent := ms\<rparr>) = classify ext c p"
  by (simp add: classify_def)

lemma frame_jptext2_char: "frame (jptext2_char ext c)"
  unfolding frame_def
proof (intro allI)
  fix p :: printer and ms
  show "jptext2_char ext c (p\<lparr>sent := ms\<rparr>) =
        (fst (jptext2_char ext c p), (snd (jptext2_char ext c p))\<lparr>sent := ms @ emitted p (snd (jptext2_char ext c p))\<rparr>)"
  proof (cases "classify ext c p")
    case (Builtin bs)
    then show ?thesis by (simp add: jptext2_char_def raw_def emitted_def)
  next
    case (CallDefine ps)
    from frame_raw_result [OF frame_define_gaiji [of ext "[c]" "font ps" "size' ps" "adjustX ps" "adjustY ps" "asciiflg ps"]]
    show ?thesis
      unfolding frame_def by (simp add: jptext2_char_def CallDefine)
  qed
qed

lemma frame_jptext2_loop: "frame (jptext2_loop ext cs)"
proof (induction cs)
  case Nil
  show ?case by (simp add: frame_def emitted_def)
next
  case (Cons c cs)
  have "jptext2_loop ext (c # cs) =
        (\<lambda>p. case jptext2_char ext c p of (Inl e, p') \<Rightarrow> (Inl e, p') | (Inr x, p') \<Rightarrow> jptext2_loop ext cs p')"
    by (rule ext) simp
  with frame_seq [OF frame_jptext2_char [of ext c] Cons.IH] show ?case by simp
qed

lemma define_gaiji_kanji_ok:
  "\<exists>bs. fst (define_gaiji ext g fnt sz ax ay False p) = Inr bs"
proof (cases "find_slot g (gaiji_areas p)")
  case None
  then show ?thesis
    by (cases "gaiji_areas p") (auto simp: define_gaiji_def escpos_register_gaiji_kanji)
next
  case (Some k)
  from od_pop_find_slot [OF this] obtain v d where "od_pop k (gaiji_areas p) = Some (v, d)" by auto
  with Some show ?thesis by (simp add: define_gaiji_def)
qed

lemma classify_kanji:
  "classify ext c p = CallDefine ps \<Longrightarrow> asciiflg ps = False"
  by (auto simp: classify_def split: if_splits)

lemma jptext2_char_ok: "fst (jptext2_char ext c p) = Inr ()"
proof (cases "classify ext c p")
  case (Builtin bs)
  then show ?thesis by (simp add: jptext2_char_def)
next
  case (CallDefine ps)
  from define_gaiji_kanji_ok [of ext "[c]" "font ps" "size' ps" "adjustX ps" "adjustY ps" p]
  obtain bs where "fst (define_gaiji ext [c] (font ps) (size' ps) (adjustX ps) (adjustY ps) False p) = Inr bs"
    by blast
  with CallDefine classify_kanji [OF CallDefine] show ?thesis
    by (auto simp: jptext2_char_def split: prod.splits sum.splits)
qed

lemma jptext2_loop_ok: "fst (jptext2_loop ext cs p) = Inr ()"
proof (induction cs arbitrary: p)
  case Nil
  show ?case by simp
next
  case (Cons c cs)
  from jptext2_char_ok [of ext c p] obtain p' where "jptext2_char ext c p = (Inr (), p')"
    by (cases "jptext2_char ext c p") auto
  with Cons.IH [of p'] show ?case by simp
qed

lemma jptext2_loop_append:
  "jptext2_loop ext (xs @ ys) p = jptext2_loop ext ys (snd (jptext2_loop ext xs p))"
proof (induction xs arbitrary: p)
  case Nil
  show ?case by simp
next
  case (Cons c xs)
  from jptext2_char_ok [of ext c p] obtain p' where "jptext2_char ext c p = (Inr (), p')"
    by (cases "jptext2_char ext c p") auto
  with Cons.IH [of p'] show ?case by simp
qed

lemma static_define_gaiji: "static p (snd (define_gaiji ext g fnt sz ax ay aflg p))"
  by (auto simp: static_def define_gaiji_def escpos_register_gaiji_kanji escpos_register_gaiji_ascii
        get_font_def Let_def split: option.split list.split prod.split)

lemma static_jptext2_char: "static p (snd (jptext2_char ext c p))"
proof (cases "classify ext c p")
  case (Builtin bs)
  then show ?thesis by (simp add: jptext2_char_def static_def raw_def)
next
  case (CallDefine ps)
  from static_define_gaiji [of p ext "[c]" "font ps" "size' ps" "adjustX ps" "adjustY ps" "asciiflg ps"]
  show ?thesis
    by (auto simp: jptext2_char_def CallDefine static_def raw_def split: prod.splits sum.splits)
qed

lemma static_jptext2_loop: "static p (snd (jptext2_loop ext cs p))"
proof (induction cs arbitrary: p)
  case Nil
  show ?case by (simp add: static_def)
next
  case (Cons c cs)
  obtain r p' where s: "jptext2_char ext c p = (r, p')" by (cases "jptext2_char ext c p")
  from static_jptext2_char [of p ext c] s have "static p p'" by simp
  moreover from Cons.IH [of p'] have "static p' (snd (jptext2_loop ext cs p'))" .
  ultimately show ?case
    using s by (cases r) (auto simp: static_def)
qed

lemma classify_static: "static p q \<Longrightarrow> classify ext c q = classify ext c p"
  by (simp add: static_def classify_def)

lemma mode_bytes_eq:
  "mode_bytes dw dh ul =
     ((if dw then 4 else 0) + (if dh then 8 else 0) + (if ul then 128 else 0),
      (if dw then 16 else 0) + (if dh then 32 else 0) + (if ul then 128 else 0))"
  by (simp add: mode_bytes_def)

lemma set_modes_eq:
  assumes "n < 256" and "b' < 256"
  shows "set_modes n b' wb bf p =
     (Inr (), p\<lparr>sent := sent p @
        (if n \<noteq> 0 then (if bf then [ESC @ ascii ''!'' @ [of_nat b']] else []) @
                          [FS @ ascii ''!'' @ [of_nat n]] else []) @
        (if wb then [GS @ ascii ''B'' @ [0x01]] else [])\<rparr>)"
  using assms by (simp add: set_modes_def to_bytes1_def raw_def)

lemma clear_modes_eq:
  "clear_modes n wb bf p =
     p\<lparr>sent := sent p @
        (if n \<noteq> 0 then (if bf then [ESC @ ascii ''!'' @ [0x00]] else []) @
                          [FS @ ascii ''!'' @ [0x00]] else []) @
        (if wb then [GS @ ascii ''B'' @ [0x00]] else [])\<rparr>"
  by (simp add: clear_modes_def raw_def Let_def)

lemma jptext2_eq:
  assumes mb: "mode_bytes dw dh ul = (n, b')"
  shows "jptext2 ext cs dw dh ul wb bf p =
     (Inr (), (snd (jptext2_loop ext cs p))
        \<lparr>sent := sent p @
           ((if n \<noteq> 0 then (if bf then [ESC @ ascii ''!'' @ [of_nat b']] else []) @
                             [FS @ ascii ''!'' @ [of_nat n]] else []) @
            (if wb then [GS @ ascii ''B'' @ [0x01]] else [])) @
           emitted p (snd (jptext2_loop ext cs p)) @
           ((if n \<noteq> 0 then (if bf then [ESC @ ascii ''!'' @ [0x00]] else []) @
                             [FS @ ascii ''!'' @ [0x00]] else []) @
            (if wb then [GS @ ascii ''B'' @ [0x00]] else []))\<rparr>)"
proof -
  let ?S = "(if n \<noteq> 0 then (if bf then [ESC @ ascii ''!'' @ [of_nat b']] else []) @
                             [FS @ ascii ''!'' @ [of_nat n]] else []) @
            (if wb then [GS @ ascii ''B'' @ [0x01]] else [])"
  let ?L = "jptext2_loop ext cs p"
  from mb have lt: "n < 256" "b' < 256"
    by (auto simp: mode_bytes_eq split: if_splits)
  have s: "set_modes n b' wb bf p = (Inr (), p\<lparr>sent := sent p @ ?S\<rparr>)"
    by (rule set_modes_eq [OF lt])
  have l: "jptext2_loop ext cs (p\<lparr>sent := sent p @ ?S\<rparr>) =
             (Inr (), (snd ?L)\<lparr>sent := (sent p @ ?S) @ emitted p (snd ?L)\<rparr>)"
    by (simp only: frameD(1) [OF frame_jptext2_loop] jptext2_loop_ok)
  show ?thesis
    unfolding jptext2_def mb prod.case s l sum.case clear_modes_eq
    by simp
qed

text \<open>
  C7. A call of \<^verbatim>\<open>jptext2\<close> never fails and sends, in this order: the set commands,
  the messages that the same call sends without any attribute (the output of the
  characters), and the clear commands. A clear command is sent exactly when its set
  command is: \<^verbatim>\<open>ESC !\<close> and \<^verbatim>\<open>FS !\<close> when one of double width, double height and
  underline is requested (the first only with \<^verbatim>\<open>bflg\<close>), \<^verbatim>\<open>GS B\<close> when reverse
  printing is. For the empty text the set commands are directly followed by the clear
  commands.
\<close>

theorem jptext2_attribute_bracket:
  "let n = (if dw then 0x04 else 0x00) + (if dh then 0x08 else 0x00) + (if underline then 0x80 else 0x00) :: byte;
       b = (if dw then 0x10 else 0x00) + (if dh then 0x20 else 0x00) + (if underline then 0x80 else 0x00) :: byte;
       set_cmds = (if dw \<or> dh \<or> underline
                   then (if bflg then [ESC @ ascii ''!'' @ [b]] else []) @ [FS @ ascii ''!'' @ [n]]
                   else []) @
                  (if wbreverse then [GS @ ascii ''B'' @ [0x01]] else []);
       clear_cmds = (if dw \<or> dh \<or> underline
                     then (if bflg then [ESC @ ascii ''!'' @ [0x00]] else []) @ [FS @ ascii ''!'' @ [0x00]]
                     else []) @
                    (if wbreverse then [GS @ ascii ''B'' @ [0x00]] else []);
       plain = snd (jptext2 ext cs False False False False False p)
   in (n \<noteq> 0) = (dw \<or> dh \<or> underline) \<and>
      (\<exists>body. sent plain = sent p @ body \<and>
         jptext2 ext cs dw dh underline wbreverse bflg p =
           (Inr (), plain\<lparr>sent := sent p @ set_cmds @ body @ clear_cmds\<rparr>)) \<and>
      jptext2 ext [] dw dh underline wbreverse bflg p =
        (Inr (), p\<lparr>sent := sent p @ set_cmds @ clear_cmds\<rparr>)"
proof -
  let ?L = "jptext2_loop ext cs p"
  obtain n b' where mb: "mode_bytes dw dh underline = (n, b')" by (cases "mode_bytes dw dh underline")
  then have n: "n = (if dw then 4 else 0) + (if dh then 8 else 0) + (if underline then 128 else 0)"
    and b: "b' = (if dw then 16 else 0) + (if dh then 32 else 0) + (if underline then 128 else 0)"
    by (simp_all add: mode_bytes_eq)
  have mb0: "mode_bytes False False False = (0, 0)" by (simp add: mode_bytes_eq)
  have sl: "sent (snd ?L) = sent p @ emitted p (snd ?L)"
    by (rule frameD(2) [OF frame_jptext2_loop])
  have plain: "jptext2 ext cs False False False False False p = (Inr (), snd ?L)"
    unfolding jptext2_eq [OF mb0] using sl by simp
  have e0: "emitted p p = []" by (simp add: emitted_def)
  show ?thesis
    unfolding Let_def plain snd_conv jptext2_eq [OF mb]
    using sl by (auto simp: n b e0)
qed

theorem jptext2_attribute_bracket_witness:
  "jptext2 ext0 [] False False True False False p0 =
     (Inr (), p0\<lparr>sent := sent p0 @ [[0x1c, 0x21, 0x80], [0x1c, 0x21, 0x00]]\<rparr>) \<and>
   jptext2 ext0 [] True True True True True p0 =
     (Inr (), p0\<lparr>sent := sent p0 @
        [[0x1b, 0x21, 0xb0], [0x1c, 0x21, 0x8c], [0x1d, 0x42, 0x01],
         [0x1b, 0x21, 0x00], [0x1c, 0x21, 0x00], [0x1d, 0x42, 0x00]]\<rparr>)"
proof -
  from jptext2_attribute_bracket [of False False True False False ext0 "[]" p0]
  have a: "jptext2 ext0 [] False False True False False p0 =
     (Inr (), p0\<lparr>sent := sent p0 @ [[0x1c, 0x21, 0x80], [0x1c, 0x21, 0x00]]\<rparr>)"
    by (simp add: Let_def ESC_def FS_def GS_def ascii_def)
  from jptext2_attribute_bracket [of True True True True True ext0 "[]" p0]
  have b: "jptext2 ext0 [] True True True True True p0 =
     (Inr (), p0\<lparr>sent := sent p0 @
        [[0x1b, 0x21, 0xb0], [0x1c, 0x21, 0x8c], [0x1d, 0x42, 0x01],
         [0x1b, 0x21, 0x00], [0x1c, 0x21, 0x00], [0x1d, 0x42, 0x00]]\<rparr>)"
    by (simp add: Let_def ESC_def FS_def GS_def ascii_def)
  from a b show ?thesis by simp
qed

lemma emitted_append: "sent q = sent p @ xs \<Longrightarrow> emitted p q = xs"
  by (simp add: emitted_def)

lemma jptext2_char_dropped:
  assumes "isascii [c] \<or> [c] \<in> set (jis_x_0201 p) \<or> [c] \<in> set (jis_x_0208 p)"
    and "cp932 ext c = None"
  shows "jptext2_char ext c p = (Inr (), p\<lparr>sent := sent p @ [[]]\<rparr>)"
  using assms by (simp add: jptext2_char_def classify_def encode_ignore_def raw_def)

text \<open>
  C10. A character of the built-in branch that the cp932 codec cannot encode costs one
  call of \<^verbatim>\<open>_raw\<close> with the empty byte string and no error; a text with such a character
  puts the same bytes on the wire as the text without it, whatever the attributes.
\<close>

theorem jptext2_drops_unencodable:
  assumes builtin: "isascii [c] \<or> [c] \<in> set (jis_x_0201 p) \<or> [c] \<in> set (jis_x_0208 p)"
    and unenc: "cp932 ext c = None"
  shows "jptext2_char ext c p = (Inr (), p\<lparr>sent := sent p @ [[]]\<rparr>) \<and>
         fst (jptext2 ext (xs @ c # ys) dw dh ul wb bf p) = Inr () \<and>
         concat (sent (snd (jptext2 ext (xs @ c # ys) dw dh ul wb bf p))) =
           concat (sent (snd (jptext2 ext (xs @ ys) dw dh ul wb bf p)))"
proof -
  let ?p1 = "snd (jptext2_loop ext xs p)"
  let ?L2 = "jptext2_loop ext ys ?p1"
  obtain n b' where mb: "mode_bytes dw dh ul = (n, b')" by (cases "mode_bytes dw dh ul")
  have st: "static p ?p1" by (rule static_jptext2_loop)
  with builtin have b1: "isascii [c] \<or> [c] \<in> set (jis_x_0201 ?p1) \<or> [c] \<in> set (jis_x_0208 ?p1)"
    by (simp add: static_def)
  have step: "jptext2_char ext c ?p1 = (Inr (), ?p1\<lparr>sent := sent ?p1 @ [[]]\<rparr>)"
    by (rule jptext2_char_dropped [OF b1 unenc])
  have s1: "sent ?p1 = sent p @ emitted p ?p1"
    by (rule frameD(2) [OF frame_jptext2_loop])
  have s2: "sent (snd ?L2) = sent ?p1 @ emitted ?p1 (snd ?L2)"
    by (rule frameD(2) [OF frame_jptext2_loop])
  have with_c: "jptext2_loop ext (xs @ c # ys) p =
      (fst ?L2, (snd ?L2)\<lparr>sent := (sent ?p1 @ [[]]) @ emitted ?p1 (snd ?L2)\<rparr>)"
    by (simp only: jptext2_loop_append jptext2_loop.simps step prod.case sum.case
          frameD(1) [OF frame_jptext2_loop])
  have without_c: "jptext2_loop ext (xs @ ys) p = ?L2"
    by (rule jptext2_loop_append)
  have e_with: "emitted p (snd (jptext2_loop ext (xs @ c # ys) p)) =
      emitted p ?p1 @ [[]] @ emitted ?p1 (snd ?L2)"
  proof (rule emitted_append)
    have "sent (snd (jptext2_loop ext (xs @ c # ys) p)) = (sent ?p1 @ [[]]) @ emitted ?p1 (snd ?L2)"
      by (simp only: with_c snd_conv) simp
    also have "\<dots> = (sent p @ emitted p ?p1) @ [[]] @ emitted ?p1 (snd ?L2)"
      by (subst s1) simp
    finally show "sent (snd (jptext2_loop ext (xs @ c # ys) p)) =
        sent p @ emitted p ?p1 @ [[]] @ emitted ?p1 (snd ?L2)"
      by simp
  qed
  have e_without: "emitted p (snd (jptext2_loop ext (xs @ ys) p)) =
      emitted p ?p1 @ emitted ?p1 (snd ?L2)"
  proof (rule emitted_append)
    have "sent (snd (jptext2_loop ext (xs @ ys) p)) = sent ?p1 @ emitted ?p1 (snd ?L2)"
      by (simp only: without_c s2 [symmetric])
    also have "\<dots> = (sent p @ emitted p ?p1) @ emitted ?p1 (snd ?L2)"
      by (subst s1) simp
    finally show "sent (snd (jptext2_loop ext (xs @ ys) p)) =
        sent p @ emitted p ?p1 @ emitted ?p1 (snd ?L2)"
      by simp
  qed
  have "concat (sent (snd (jptext2 ext (xs @ c # ys) dw dh ul wb bf p))) =
        concat (sent (snd (jptext2 ext (xs @ ys) dw dh ul wb bf p)))"
    unfolding jptext2_eq [OF mb] snd_conv by (simp add: e_with e_without)
  moreover have "fst (jptext2 ext (xs @ c # ys) dw dh ul wb bf p) = Inr ()"
    unfolding jptext2_eq [OF mb] by simp
  moreover note jptext2_char_dropped [OF builtin unenc]
  ultimately show ?thesis by blast
qed

theorem jptext2_drops_unencodable_witness:
  "jptext2_char ext0 0xA5 p0 = (Inr (), p0\<lparr>sent := sent p0 @ [[]]\<rparr>) \<and>
   fst (jptext2 ext0 ([0x41] @ 0xA5 # [0x42]) False False True False False p0) = Inr () \<and>
   concat (sent (snd (jptext2 ext0 ([0x41] @ 0xA5 # [0x42]) False False True False False p0))) =
     concat (sent (snd (jptext2 ext0 ([0x41] @ [0x42]) False False True False False p0)))"
proof -
  have t: "jis_x_0201 p0 = [[0xA5], [0x203E]]"
    by (simp add: p0_def init_def raw_def)
  have a: "isascii [0xA5] \<or> [0xA5] \<in> set (jis_x_0201 p0) \<or> [0xA5] \<in> set (jis_x_0208 p0)"
    by (simp add: t)
  have b: "cp932 ext0 0xA5 = None" by (simp add: ext0_def)
  from jptext2_drops_unencodable [OF a b] show ?thesis by blast
qed

lemma jptext2_char_define:
  assumes "classify ext c p = CallDefine ps"
  shows "\<exists>bs. fst (define_gaiji ext [c] (font ps) (size' ps) (adjustX ps) (adjustY ps) False p) = Inr bs \<and>
           jptext2_char ext c p =
             (Inr (), raw bs (snd (define_gaiji ext [c] (font ps) (size' ps) (adjustX ps) (adjustY ps) False p)))"
proof -
  let ?D = "define_gaiji ext [c] (font ps) (size' ps) (adjustX ps) (adjustY ps) False p"
  obtain r q where D: "?D = (r, q)" by (cases ?D)
  from define_gaiji_kanji_ok [of ext "[c]" "font ps" "size' ps" "adjustX ps" "adjustY ps" p] D
  obtain bs where bs: "r = Inr bs" by auto
  from assms classify_kanji [OF assms] D bs
  have "jptext2_char ext c p = (Inr (), raw bs q)"
    by (simp add: jptext2_char_def)
  with D bs show ?thesis by simp
qed

text \<open>
  C1. The branch taken for a character is decided by the first rule that matches:
  ASCII or in the JIS X 0201 or JIS X 0208 table, then the bytes of the cp932 codec are
  sent as they are; otherwise in the JIS X 0212 or JIS X 0213 table, then the character is
  registered with the kanji font settings; otherwise an emoji, then with the emoji font
  settings; otherwise with the fallback font settings. Exactly one of the four rules
  matches every character, a character below 128 always takes the built-in branch, and a
  registered character is always registered in the pool of user-defined kanji and its
  selection bytes are sent.
\<close>

theorem classify_first_match:
  "let r1 = (isascii [c] \<or> [c] \<in> set (jis_x_0201 p) \<or> [c] \<in> set (jis_x_0208 p));
       r2 = (\<not> r1 \<and> ([c] \<in> set (jis_x_0212 p) \<or> [c] \<in> set (jis_x_0213 p)));
       r3 = (\<not> r1 \<and> \<not> r2 \<and> is_emoji ext [c]);
       r4 = (\<not> r1 \<and> \<not> r2 \<and> \<not> r3)
   in (r1 \<longrightarrow> classify ext c p = Builtin (encode_ignore (cp932 ext) [c]) \<and>
               jptext2_char ext c p = (Inr (), raw (encode_ignore (cp932 ext) [c]) p)) \<and>
      (r2 \<longrightarrow> classify ext c p =
               CallDefine \<lparr>font = kanji_font_file (config p), size' = kanji_font_size (config p),
                           adjustX = kanji_font_adjust_x (config p),
                           adjustY = kanji_font_adjust_y (config p), asciiflg = False\<rparr>) \<and>
      (r3 \<longrightarrow> classify ext c p =
               CallDefine \<lparr>font = emoji_font_file (config p), size' = emoji_font_size (config p),
                           adjustX = emoji_font_adjust_x (config p),
                           adjustY = emoji_font_adjust_y (config p), asciiflg = False\<rparr>) \<and>
      (r4 \<longrightarrow> classify ext c p =
               CallDefine \<lparr>font = fallback_font_file (config p), size' = fallback_font_size (config p),
                           adjustX = fallback_font_adjust_x (config p),
                           adjustY = fallback_font_adjust_y (config p), asciiflg = False\<rparr>) \<and>
      length (filter id [r1, r2, r3, r4]) = 1 \<and>
      (c < 128 \<longrightarrow> r1) \<and>
      (\<forall>ps. classify ext c p = CallDefine ps \<longrightarrow>
         (\<exists>bs. fst (define_gaiji ext [c] (font ps) (size' ps) (adjustX ps) (adjustY ps) False p) = Inr bs \<and>
            jptext2_char ext c p =
              (Inr (), raw bs (snd (define_gaiji ext [c] (font ps) (size' ps) (adjustX ps) (adjustY ps) False p)))))"
proof -
  have "jptext2_char ext c p = (Inr (), raw (encode_ignore (cp932 ext) [c]) p)"
    if "classify ext c p = Builtin (encode_ignore (cp932 ext) [c])"
    using that by (simp add: jptext2_char_def)
  then show ?thesis
    unfolding Let_def
  proof (intro conjI)
    show "\<forall>ps. classify ext c p = CallDefine ps \<longrightarrow>
         (\<exists>bs. fst (define_gaiji ext [c] (font ps) (size' ps) (adjustX ps) (adjustY ps) False p) = Inr bs \<and>
            jptext2_char ext c p =
              (Inr (), raw bs (snd (define_gaiji ext [c] (font ps) (size' ps) (adjustX ps) (adjustY ps) False p))))"
      using jptext2_char_define by blast
  qed (auto simp: classify_def isascii_def)
qed

theorem classify_first_match_witness:
  "classify ext0 0x41 p0 = Builtin [0x41] \<and>
   classify ext0 0x3042 p0 = Builtin [0x82, 0xa0] \<and>
   classify ext0 0x4FF1 p0 =
     CallDefine \<lparr>font = ''NotoSansJP-Medium.otf'', size' = 24, adjustX = 0, adjustY = - 8, asciiflg = False\<rparr> \<and>
   classify ext0 0x1F44D p0 =
     CallDefine \<lparr>font = ''OpenMoji-black-glyf.ttf'', size' = 20, adjustX = 0, adjustY = 0, asciiflg = False\<rparr> \<and>
   classify ext0 0x9AF p0 =
     CallDefine \<lparr>font = ''unifont_jp-16.0.03.otf'', size' = 24, adjustX = 2, adjustY = 0, asciiflg = False\<rparr> \<and>
   (\<exists>bs. jptext2_char ext0 0x4FF1 p0 =
      (Inr (), raw bs (snd (define_gaiji ext0 [0x4FF1] ''NotoSansJP-Medium.otf'' 24 0 (- 8) False p0))))"
proof -
  have t: "jis_x_0201 p0 = [[0xA5], [0x203E]]" "jis_x_0208 p0 = [[0x3042]]"
    "jis_x_0212 p0 = [[0x4E02]]" "jis_x_0213 p0 = [[0x4FF1]]" "config p0 = cfg0"
    by (simp_all add: p0_def init_def raw_def)
  have e: "is_emoji ext0 s \<longleftrightarrow> s = [0x1F44D]" "cp932 ext0 0x41 = Some [0x41]"
    "cp932 ext0 0x3042 = Some [0x82, 0xa0]" for s
    by (simp_all add: ext0_def)
  from classify_first_match [where c = "0x41" and p = p0 and ext = ext0]
  have a: "classify ext0 0x41 p0 = Builtin [0x41]"
    by (simp add: Let_def isascii_def encode_ignore_def e)
  from classify_first_match [where c = "0x3042" and p = p0 and ext = ext0]
  have b: "classify ext0 0x3042 p0 = Builtin [0x82, 0xa0]"
    by (simp add: Let_def isascii_def encode_ignore_def e t)
  from classify_first_match [where c = "0x4FF1" and p = p0 and ext = ext0]
  have c: "classify ext0 0x4FF1 p0 =
     CallDefine \<lparr>font = ''NotoSansJP-Medium.otf'', size' = 24, adjustX = 0, adjustY = - 8, asciiflg = False\<rparr>"
    and c': "\<exists>bs. jptext2_char ext0 0x4FF1 p0 =
      (Inr (), raw bs (snd (define_gaiji ext0 [0x4FF1] ''NotoSansJP-Medium.otf'' 24 0 (- 8) False p0)))"
    by (auto simp: Let_def isascii_def e t cfg0_def)
  from classify_first_match [where c = "0x1F44D" and p = p0 and ext = ext0]
  have d: "classify ext0 0x1F44D p0 =
     CallDefine \<lparr>font = ''OpenMoji-black-glyf.ttf'', size' = 20, adjustX = 0, adjustY = 0, asciiflg = False\<rparr>"
    by (simp add: Let_def isascii_def e t cfg0_def)
  from classify_first_match [where c = "0x9AF" and p = p0 and ext = ext0]
  have f: "classify ext0 0x9AF p0 =
     CallDefine \<lparr>font = ''unifont_jp-16.0.03.otf'', size' = 24, adjustX = 2, adjustY = 0, asciiflg = False\<rparr>"
    by (simp add: Let_def isascii_def e t cfg0_def)
  from a b c c' d f show ?thesis by blast
qed

end
